theory Spec2Isabelle
  imports Main "HOL-Library.AList" "HOL-Library.Multiset" "HOL-Library.Sublist"
begin

section \<open>Strings and pure paths\<close>

text \<open>
  A path is the list of its components, read from the root of the modelled tree.
  \<open>Path s\<close> parses a relative path written with slashes, as \<open>pathlib.Path(s)\<close>
  does for the constants of the program: empty components and \<open>.\<close> are dropped.
\<close>

type_synonym path = "string list"

fun split_slash :: "string \<Rightarrow> string \<Rightarrow> string list" where
  "split_slash acc [] = [acc]"
| "split_slash acc (c # cs) =
     (if c = CHR ''/'' then acc # split_slash [] cs else split_slash (acc @ [c]) cs)"

definition Path :: "string \<Rightarrow> path" where
  "Path s = filter (\<lambda>c. c \<noteq> [] \<and> c \<noteq> ''.'') (split_slash [] s)"

definition path_name :: "path \<Rightarrow> string" where
  "path_name p = (if p = [] then [] else last p)"

definition path_parent :: "path \<Rightarrow> path" where
  "path_parent p = butlast p"

text \<open>\<open>str.rfind\<close>: the highest index of the character, or \<open>-1\<close>.\<close>

fun rfind :: "char \<Rightarrow> string \<Rightarrow> int" where
  "rfind c [] = - 1"
| "rfind c (x # xs) =
     (let r = rfind c xs in if 0 \<le> r then r + 1 else if x = c then 0 else - 1)"

text \<open>
  \<open>PurePath.suffix\<close> and \<open>PurePath.stem\<close> of a file name (CPython 3.8 to 3.13):
  the suffix starts at the last dot, unless that dot is the first or the last character.
\<close>

definition name_suffix :: "string \<Rightarrow> string" where
  "name_suffix name =
     (let i = rfind CHR ''.'' name
      in if 0 < i \<and> i < int (length name) - 1 then drop (nat i) name else [])"

definition name_stem :: "string \<Rightarrow> string" where
  "name_stem name =
     (let i = rfind CHR ''.'' name
      in if 0 < i \<and> i < int (length name) - 1 then take (nat i) name else name)"

definition path_suffix :: "path \<Rightarrow> string" where
  "path_suffix p = name_suffix (path_name p)"

definition path_stem :: "path \<Rightarrow> string" where
  "path_stem p = name_stem (path_name p)"

text \<open>
  \<open>str.lower\<close> follows the Unicode tables of the interpreter, which are not reproduced
  here: the functions that call it take the lowering function as their first argument
  \<open>lc\<close>, and the statements below hold for every such function. On a string of ASCII
  characters \<open>str.lower\<close> is \<open>ascii_lower\<close>, which maps the letters \<open>A\<close> to \<open>Z\<close> to
  \<open>a\<close> to \<open>z\<close> and keeps every other character; the scenarios, whose names are ASCII, are
  run with it.
\<close>

definition lower_char :: "char \<Rightarrow> char" where
  "lower_char c =
     (case map_of (zip ''ABCDEFGHIJKLMNOPQRSTUVWXYZ'' ''abcdefghijklmnopqrstuvwxyz'') c of
        None \<Rightarrow> c
      | Some l \<Rightarrow> l)"

definition ascii_lower :: "string \<Rightarrow> string" where
  "ascii_lower s = map lower_char s"

text \<open>The decimal numeral of a counter, as an f-string prints it.\<close>

definition digit_char :: "nat \<Rightarrow> char" where
  "digit_char d = ''0123456789'' ! d"

fun str_nat :: "nat \<Rightarrow> string" where
  "str_nat n = (if n < 10 then [digit_char n] else str_nat (n div 10) @ [digit_char (n mod 10)])"

declare str_nat.simps [simp del]

section \<open>The filesystem\<close>

text \<open>
  The model covers regular files and directories of one POSIX filesystem, accessed by one
  thread: no symbolic links, no permissions other than a refused removal, no limit on the
  length of a name. A listing is taken once, in the order of the entries, as
  \<open>os.listdir\<close> returns it.

  A node is a regular file with its content or a directory with its entries in listing
  order. The state holds the tree, the directories whose removal the system refuses
  (permissions, a directory in use) and the effects performed so far.
\<close>

datatype node = File string | Dir "(string \<times> node) list"

datatype oserror = ENOENT | EEXIST | ENOTDIR | ENOTEMPTY | EACCES | EINVAL

datatype effect =
    Mkdir path
  | Move path path "node option"
  | Rmdir path

record fsys =
  tree :: node
  rmdir_denied :: "path list"
  effects :: "effect list"

fun resolve :: "node \<Rightarrow> path \<Rightarrow> oserror + node" where
  "resolve n [] = Inr n"
| "resolve (File c) (x # p) = Inl ENOTDIR"
| "resolve (Dir es) (x # p) =
     (case map_of es x of None \<Rightarrow> Inl ENOENT | Some c \<Rightarrow> resolve c p)"

text \<open>
  \<open>set_entry t p v\<close> binds the entry at \<open>p\<close> to \<open>v\<close> (\<open>None\<close> unlinks it). It is
  undefined (\<open>None\<close>) for the root and when the parent of \<open>p\<close> is not a directory.
\<close>

fun set_entry :: "node \<Rightarrow> path \<Rightarrow> node option \<Rightarrow> node option" where
  "set_entry t [] v = None"
| "set_entry (File c) (x # p) v = None"
| "set_entry (Dir es) [x] v =
     Some (Dir (case v of None \<Rightarrow> AList.delete x es | Some n \<Rightarrow> AList.update x n es))"
| "set_entry (Dir es) (x # y # p) v =
     (case map_of es x of
        None \<Rightarrow> None
      | Some c \<Rightarrow>
          (case set_entry c (y # p) v of
             None \<Rightarrow> None
           | Some c' \<Rightarrow> Some (Dir (AList.update x c' es))))"

definition path_exists :: "fsys \<Rightarrow> path \<Rightarrow> bool" where
  "path_exists fs p = (case resolve (tree fs) p of Inl e \<Rightarrow> False | Inr n \<Rightarrow> True)"

definition is_dir :: "fsys \<Rightarrow> path \<Rightarrow> bool" where
  "is_dir fs p =
     (case resolve (tree fs) p of Inl e \<Rightarrow> False | Inr (File c) \<Rightarrow> False | Inr (Dir es) \<Rightarrow> True)"

definition iterdir :: "fsys \<Rightarrow> path \<Rightarrow> oserror + path list" where
  "iterdir fs p =
     (case resolve (tree fs) p of
        Inl e \<Rightarrow> Inl e
      | Inr (File c) \<Rightarrow> Inl ENOTDIR
      | Inr (Dir es) \<Rightarrow> Inr (map (\<lambda>e. p @ [fst e]) es))"

definition os_mkdir :: "fsys \<Rightarrow> path \<Rightarrow> oserror + fsys" where
  "os_mkdir fs p =
     (case resolve (tree fs) p of
        Inr n \<Rightarrow> Inl EEXIST
      | Inl e \<Rightarrow>
          (case resolve (tree fs) (butlast p) of
             Inl e' \<Rightarrow> Inl e'
           | Inr (File c) \<Rightarrow> Inl ENOTDIR
           | Inr (Dir es) \<Rightarrow>
               (case set_entry (tree fs) p (Some (Dir [])) of
                  None \<Rightarrow> Inl ENOENT
                | Some t \<Rightarrow> Inr (fs\<lparr>tree := t, effects := effects fs @ [Mkdir p]\<rparr>))))"

text \<open>\<open>Path.mkdir(parents=False, exist_ok=True)\<close>, the last step of the recursive call.\<close>

definition mkdir_exist_ok :: "fsys \<Rightarrow> path \<Rightarrow> oserror + fsys" where
  "mkdir_exist_ok fs p =
     (case os_mkdir fs p of
        Inr fs' \<Rightarrow> Inr fs'
      | Inl e \<Rightarrow> if e = ENOENT then Inl e else if is_dir fs p then Inr fs else Inl e)"

text \<open>\<open>Path.mkdir(parents=True, exist_ok=True)\<close>.\<close>

function mkdir_parents :: "fsys \<Rightarrow> path \<Rightarrow> oserror + fsys" where
  "mkdir_parents fs p =
     (case os_mkdir fs p of
        Inr fs' \<Rightarrow> Inr fs'
      | Inl e \<Rightarrow>
          if e = ENOENT then
            (if p = [] then Inl e
             else (case mkdir_parents fs (butlast p) of
                     Inl e' \<Rightarrow> Inl e'
                   | Inr fs' \<Rightarrow> mkdir_exist_ok fs' p))
          else if is_dir fs p then Inr fs else Inl e)"
  by pat_completeness auto
termination
  by (relation "measure (\<lambda>(fs, p). length p)") auto

declare mkdir_parents.simps [simp del]

text \<open>
  \<open>shutil.move(src, dst)\<close> within one filesystem. An existing directory \<open>dst\<close> receives
  the source under its own name; an existing file \<open>dst\<close> is replaced by a source file.
  The effect records what was at \<open>dst\<close> before the call.
\<close>

definition move :: "fsys \<Rightarrow> path \<Rightarrow> path \<Rightarrow> oserror + fsys" where
  "move fs src dst =
     (let pre = (case resolve (tree fs) dst of Inl e \<Rightarrow> None | Inr n \<Rightarrow> Some n);
          real_dst = (if is_dir fs dst then dst @ [path_name src] else dst)
      in if is_dir fs dst \<and> src = dst then Inr fs
         else if is_dir fs dst \<and> path_exists fs real_dst then Inl EEXIST
         else
           (case resolve (tree fs) src of
              Inl e \<Rightarrow> Inl e
            | Inr n \<Rightarrow>
                if src = real_dst then Inr fs
                else if prefix src real_dst then Inl EINVAL
                else if is_dir fs src \<and> path_exists fs real_dst then Inl ENOTDIR
                else
                  (case set_entry (tree fs) src None of
                     None \<Rightarrow> Inl EINVAL
                   | Some t1 \<Rightarrow>
                       (case set_entry t1 real_dst (Some n) of
                          None \<Rightarrow> Inl ENOENT
                        | Some t2 \<Rightarrow>
                            Inr (fs\<lparr>tree := t2,
                                    effects := effects fs @ [Move src dst pre]\<rparr>)))))"

definition rmdir :: "fsys \<Rightarrow> path \<Rightarrow> oserror + fsys" where
  "rmdir fs p =
     (case resolve (tree fs) p of
        Inl e \<Rightarrow> Inl e
      | Inr (File c) \<Rightarrow> Inl ENOTDIR
      | Inr (Dir es) \<Rightarrow>
          if es \<noteq> [] then Inl ENOTEMPTY
          else if p \<in> set (rmdir_denied fs) then Inl EACCES
          else
            (case set_entry (tree fs) p None of
               None \<Rightarrow> Inl EINVAL
             | Some t \<Rightarrow> Inr (fs\<lparr>tree := t, effects := effects fs @ [Rmdir p]\<rparr>)))"


text \<open>What a path names: nothing, a file with its content, or a directory.\<close>

datatype kind = Absent | IsFile string | IsDir

definition kind_of :: "oserror + node \<Rightarrow> kind" where
  "kind_of r = (case r of Inl e \<Rightarrow> Absent | Inr (File c) \<Rightarrow> IsFile c | Inr (Dir es) \<Rightarrow> IsDir)"

definition kind_at :: "fsys \<Rightarrow> path \<Rightarrow> kind" where
  "kind_at fs q = kind_of (resolve (tree fs) q)"

section \<open>Basic facts about paths and numerals\<close>

lemma resolve_append:
  "resolve t (p @ q) = (case resolve t p of Inl e \<Rightarrow> Inl e | Inr n \<Rightarrow> resolve n q)"
  by (induction t p rule: resolve.induct) (auto split: option.splits)

lemma finite_children: "finite {x. path_exists fs (p @ [x])}"
proof (cases "resolve (tree fs) p")
  case (Inl e)
  then show ?thesis by (simp add: path_exists_def resolve_append)
next
  case (Inr n)
  show ?thesis
  proof (cases n)
    case (File c)
    with Inr show ?thesis by (simp add: path_exists_def resolve_append)
  next
    case (Dir es)
    have "{x. path_exists fs (p @ [x])} \<subseteq> fst ` set es"
      using Inr Dir
      by (auto simp: path_exists_def resolve_append split: option.splits
          dest!: map_of_SomeD intro: rev_image_eqI)
    then show ?thesis by (rule finite_subset) simp
  qed
qed

lemma digit_char_inj: "a < 10 \<Longrightarrow> b < 10 \<Longrightarrow> digit_char a = digit_char b \<Longrightarrow> a = b"
proof -
  assume a: "a < 10" and b: "b < 10" and e: "digit_char a = digit_char b"
  have d: "distinct ''0123456789''" by simp
  have l: "length ''0123456789'' = 10" by simp
  from e show ?thesis
    unfolding digit_char_def using nth_eq_iff_index_eq[OF d, of a b] a b l by simp
qed

lemma str_nat_nonempty: "str_nat n \<noteq> []"
  by (subst str_nat.simps) simp

lemma str_nat_inj: "str_nat a = str_nat b \<Longrightarrow> a = b"
proof (induction a arbitrary: b rule: str_nat.induct)
  case (1 n)
  show ?case
  proof (cases "n < 10")
    case True
    then have sn: "str_nat n = [digit_char n]" by (subst str_nat.simps) simp
    show ?thesis
    proof (cases "b < 10")
      case True
      then have "str_nat b = [digit_char b]" by (subst str_nat.simps) simp
      with sn 1(2) \<open>n < 10\<close> True show ?thesis by (auto dest: digit_char_inj)
    next
      case False
      then have "str_nat b = str_nat (b div 10) @ [digit_char (b mod 10)]"
        by (subst str_nat.simps) simp
      with sn 1(2) have "str_nat (b div 10) = []" by simp
      then show ?thesis by (simp add: str_nat_nonempty)
    qed
  next
    case False
    then have sn: "str_nat n = str_nat (n div 10) @ [digit_char (n mod 10)]"
      by (subst str_nat.simps) simp
    show ?thesis
    proof (cases "b < 10")
      case True
      then have "str_nat b = [digit_char b]" by (subst str_nat.simps) simp
      with sn 1(2) have "str_nat (n div 10) = []" by simp
      then show ?thesis by (simp add: str_nat_nonempty)
    next
      case b10: False
      then have "str_nat b = str_nat (b div 10) @ [digit_char (b mod 10)]"
        by (subst str_nat.simps) simp
      with sn 1(2) have e1: "str_nat (n div 10) = str_nat (b div 10)"
        and e2: "digit_char (n mod 10) = digit_char (b mod 10)" by auto
      from 1(1)[OF False e1] have "n div 10 = b div 10" .
      moreover from e2 have "n mod 10 = b mod 10"
        by (rule digit_char_inj[rotated 2]) simp_all
      ultimately show ?thesis by (metis div_mult_mod_eq)
    qed
  qed
qed

section \<open>The organizer (organize\_gui.py)\<close>

definition CATEGORY_MAP :: "(string \<times> string list) list" where
  "CATEGORY_MAP =
     [(''Documents/Excel'', [''.xls'', ''.xlsx'', ''.xlsm'', ''.xlsb'', ''.xltx'', ''.csv'']),
      (''Documents/Word'', [''.doc'', ''.docx'', ''.odt'', ''.rtf'']),
      (''Documents/PDF'', [''.pdf'']),
      (''Documents/Text'', [''.txt'']),
      (''Media/Images'',
         [''.jpg'', ''.jpeg'', ''.png'', ''.gif'', ''.bmp'', ''.tiff'', ''.webp'', ''.heic'']),
      (''Media/Videos'',
         [''.mp4'', ''.mov'', ''.avi'', ''.mkv'', ''.wmv'', ''.flv'', ''.webm'', ''.m4v''])]"

definition LEGACY_FOLDER_REMAP :: "(string \<times> string) list" where
  "LEGACY_FOLDER_REMAP =
     [(''Excel'', ''Documents/Excel''),
      (''Word'', ''Documents/Word''),
      (''PDF'', ''Documents/PDF''),
      (''Text'', ''Documents/Text'')]"

definition OTHER_FOLDER :: string where
  "OTHER_FOLDER = ''Other''"

type_synonym moves = "(path \<times> path) list"

text \<open>
  A run either raises, leaving the filesystem as it was at the failing call, or returns
  the filesystem and the list of moves.
\<close>

type_synonym run = "(oserror \<times> fsys) + (fsys \<times> moves)"

definition final_fs :: "run \<Rightarrow> fsys" where
  "final_fs r = (case r of Inl (e, fs) \<Rightarrow> fs | Inr (fs, ms) \<Rightarrow> fs)"

text \<open>The scan of \<open>CATEGORY_MAP.items()\<close> in \<open>resolve_destination\<close>.\<close>

fun first_category :: "(string \<times> string list) list \<Rightarrow> string \<Rightarrow> path option" where
  "first_category [] ext = None"
| "first_category ((dest, extensions) # rest) ext =
     (if ext \<in> set extensions then Some (Path dest) else first_category rest ext)"

definition resolve_destination :: "(string \<Rightarrow> string) \<Rightarrow> path \<Rightarrow> path option" where
  "resolve_destination lc file_path =
     (let ext = lc (path_suffix file_path) in first_category CATEGORY_MAP ext)"

text \<open>The name \<open>f"{stem} ({counter}){suffix}"\<close>.\<close>

definition numbered :: "string \<Rightarrow> nat \<Rightarrow> string \<Rightarrow> string" where
  "numbered stem counter sfx = stem @ '' ('' @ str_nat counter @ '')'' @ sfx"

lemma numbered_inj: "numbered stem a sfx = numbered stem b sfx \<Longrightarrow> a = b"
  by (simp add: numbered_def str_nat_inj)

lemma finite_numbered: "finite {k. path_exists fs (parent @ [numbered stem k sfx])}"
proof -
  have inj: "inj (\<lambda>k. numbered stem k sfx)"
    by (rule injI) (rule numbered_inj)
  have "finite ((\<lambda>k. numbered stem k sfx) -` {x. path_exists fs (parent @ [x])})"
    using finite_children inj by (rule finite_vimageI)
  then show ?thesis by (simp add: vimage_def)
qed

lemma numbered_measure:
  assumes "path_exists fs (parent @ [numbered stem c sfx])"
  shows "card {k. Suc c \<le> k \<and> path_exists fs (parent @ [numbered stem k sfx])}
       < card {k. c \<le> k \<and> path_exists fs (parent @ [numbered stem k sfx])}"
proof (rule psubset_card_mono)
  show "finite {k. c \<le> k \<and> path_exists fs (parent @ [numbered stem k sfx])}"
    using finite_numbered[of fs parent stem sfx] by simp
  have "c \<in> {k. c \<le> k \<and> path_exists fs (parent @ [numbered stem k sfx])}"
    using assms by simp
  moreover have "c \<notin> {k. Suc c \<le> k \<and> path_exists fs (parent @ [numbered stem k sfx])}"
    by simp
  moreover have "{k. Suc c \<le> k \<and> path_exists fs (parent @ [numbered stem k sfx])}
      \<subseteq> {k. c \<le> k \<and> path_exists fs (parent @ [numbered stem k sfx])}"
    by auto
  ultimately show "{k. Suc c \<le> k \<and> path_exists fs (parent @ [numbered stem k sfx])}
      \<subset> {k. c \<le> k \<and> path_exists fs (parent @ [numbered stem k sfx])}"
    by blast
qed

function unique_from :: "fsys \<Rightarrow> path \<Rightarrow> string \<Rightarrow> string \<Rightarrow> nat \<Rightarrow> path" where
  "unique_from fs parent stem sfx counter =
     (let candidate = parent @ [numbered stem counter sfx]
      in if \<not> path_exists fs candidate then candidate
         else unique_from fs parent stem sfx (counter + 1))"
  by pat_completeness auto
termination
  by (relation "measure (\<lambda>(fs, parent, stem, sfx, c).
        card {k. c \<le> k \<and> path_exists fs (parent @ [numbered stem k sfx])})")
     (simp_all add: numbered_measure)

declare unique_from.simps [simp del]

definition ensure_unique_path :: "fsys \<Rightarrow> path \<Rightarrow> path" where
  "ensure_unique_path fs target =
     (if \<not> path_exists fs target then target
      else unique_from fs (path_parent target) (path_stem target) (path_suffix target) 1)"

lemma dir_candidate_measure:
  assumes "path_exists fs (parent @ [name @ '' ('' @ str_nat c @ '')''])"
  shows "card {k. Suc c \<le> k \<and> path_exists fs (parent @ [name @ '' ('' @ str_nat k @ '')''])}
       < card {k. c \<le> k \<and> path_exists fs (parent @ [name @ '' ('' @ str_nat k @ '')''])}"
  using numbered_measure[of fs parent name c "[]"] assms by (simp add: numbered_def)

function unique_dir_from :: "fsys \<Rightarrow> path \<Rightarrow> string \<Rightarrow> nat \<Rightarrow> path" where
  "unique_dir_from fs parent name counter =
     (let candidate = parent @ [name @ '' ('' @ str_nat counter @ '')'']
      in if \<not> path_exists fs candidate then candidate
         else unique_dir_from fs parent name (counter + 1))"
  by pat_completeness auto
termination
  by (relation "measure (\<lambda>(fs, parent, name, c).
        card {k. c \<le> k \<and> path_exists fs (parent @ [name @ '' ('' @ str_nat k @ '')''])})")
     (simp_all add: dir_candidate_measure[simplified])

declare unique_dir_from.simps [simp del]

definition ensure_unique_dir :: "fsys \<Rightarrow> path \<Rightarrow> path" where
  "ensure_unique_dir fs target =
     (if \<not> path_exists fs target then target
      else unique_dir_from fs (path_parent target) (path_name target) 1)"

text \<open>The loop of \<open>organize_folder\<close> over the listing of the base folder.\<close>

fun organize_entries ::
  "(string \<Rightarrow> string) \<Rightarrow> path \<Rightarrow> path list \<Rightarrow> fsys \<Rightarrow> moves \<Rightarrow> run" where
  "organize_entries lc base_folder [] fs moves = Inr (fs, moves)"
| "organize_entries lc base_folder (entry # rest) fs moves =
     (if is_dir fs entry then organize_entries lc base_folder rest fs moves
      else
        let dest_subpath = resolve_destination lc entry;
            dest_root = (case dest_subpath of None \<Rightarrow> Path OTHER_FOLDER | Some d \<Rightarrow> d);
            dest_folder = base_folder @ dest_root
        in case mkdir_parents fs dest_folder of
             Inl e \<Rightarrow> Inl (e, fs)
           | Inr fs1 \<Rightarrow>
               let target = ensure_unique_path fs1 (dest_folder @ [path_name entry])
               in (case move fs1 entry target of
                     Inl e \<Rightarrow> Inl (e, fs1)
                   | Inr fs2 \<Rightarrow>
                       organize_entries lc base_folder rest fs2 (moves @ [(entry, target)])))"

text \<open>The inner loop of \<open>relocate_legacy_folders\<close> over the listing of one legacy folder.\<close>

fun relocate_items :: "path \<Rightarrow> path list \<Rightarrow> fsys \<Rightarrow> moves \<Rightarrow> run" where
  "relocate_items dest_dir [] fs moves = Inr (fs, moves)"
| "relocate_items dest_dir (item # rest) fs moves =
     (if is_dir fs item then
        let target_dir = ensure_unique_dir fs (dest_dir @ [path_name item])
        in (case move fs item target_dir of
              Inl e \<Rightarrow> Inl (e, fs)
            | Inr fs' \<Rightarrow> relocate_items dest_dir rest fs' (moves @ [(item, target_dir)]))
      else
        let target_file = ensure_unique_path fs (dest_dir @ [path_name item])
        in (case move fs item target_file of
              Inl e \<Rightarrow> Inl (e, fs)
            | Inr fs' \<Rightarrow> relocate_items dest_dir rest fs' (moves @ [(item, target_file)])))"

text \<open>The outer loop over \<open>LEGACY_FOLDER_REMAP.items()\<close>; an error of \<open>rmdir\<close> is passed over.\<close>

fun relocate_each :: "path \<Rightarrow> (string \<times> string) list \<Rightarrow> fsys \<Rightarrow> moves \<Rightarrow> run" where
  "relocate_each base_folder [] fs moves = Inr (fs, moves)"
| "relocate_each base_folder ((legacy_name, dest_rel) # rest) fs moves =
     (let src_dir = base_folder @ Path legacy_name
      in if \<not> path_exists fs src_dir \<or> \<not> is_dir fs src_dir
         then relocate_each base_folder rest fs moves
         else
           let dest_dir = base_folder @ Path dest_rel
           in case mkdir_parents fs dest_dir of
                Inl e \<Rightarrow> Inl (e, fs)
              | Inr fs1 \<Rightarrow>
                  (case iterdir fs1 src_dir of
                     Inl e \<Rightarrow> Inl (e, fs1)
                   | Inr items \<Rightarrow>
                       (case relocate_items dest_dir items fs1 moves of
                          Inl x \<Rightarrow> Inl x
                        | Inr (fs2, moves2) \<Rightarrow>
                            let fs3 = (case rmdir fs2 src_dir of Inl e \<Rightarrow> fs2 | Inr fs' \<Rightarrow> fs')
                            in relocate_each base_folder rest fs3 moves2)))"

definition relocate_legacy_folders :: "path \<Rightarrow> fsys \<Rightarrow> moves \<Rightarrow> run" where
  "relocate_legacy_folders base_folder fs moves =
     relocate_each base_folder LEGACY_FOLDER_REMAP fs moves"

definition organize_folder :: "(string \<Rightarrow> string) \<Rightarrow> path \<Rightarrow> fsys \<Rightarrow> run" where
  "organize_folder lc base_folder fs =
     (case iterdir fs base_folder of
        Inl e \<Rightarrow> Inl (e, fs)
      | Inr entries \<Rightarrow>
          (case organize_entries lc base_folder entries fs [] of
             Inl x \<Rightarrow> Inl x
           | Inr (fs1, moves) \<Rightarrow> relocate_legacy_folders base_folder fs1 moves))"


section \<open>The organizer (organize\_gui\_riot.py)\<close>

text \<open>
  The second source file declares the same tables and functions; they are embedded on
  their own, under the prefix \<open>riot_\<close>.
\<close>

definition riot_CATEGORY_MAP :: "(string \<times> string list) list" where
  "riot_CATEGORY_MAP =
     [(''Documents/Excel'', [''.xls'', ''.xlsx'', ''.xlsm'', ''.xlsb'', ''.xltx'', ''.csv'']),
      (''Documents/Word'', [''.doc'', ''.docx'', ''.odt'', ''.rtf'']),
      (''Documents/PDF'', [''.pdf'']),
      (''Documents/Text'', [''.txt'']),
      (''Media/Images'',
         [''.jpg'', ''.jpeg'', ''.png'', ''.gif'', ''.bmp'', ''.tiff'', ''.webp'', ''.heic'']),
      (''Media/Videos'',
         [''.mp4'', ''.mov'', ''.avi'', ''.mkv'', ''.wmv'', ''.flv'', ''.webm'', ''.m4v''])]"

definition riot_LEGACY_FOLDER_REMAP :: "(string \<times> string) list" where
  "riot_LEGACY_FOLDER_REMAP =
     [(''Excel'', ''Documents/Excel''),
      (''Word'', ''Documents/Word''),
      (''PDF'', ''Documents/PDF''),
      (''Text'', ''Documents/Text'')]"

definition riot_OTHER_FOLDER :: string where
  "riot_OTHER_FOLDER = ''Other''"

fun riot_first_category :: "(string \<times> string list) list \<Rightarrow> string \<Rightarrow> path option" where
  "riot_first_category [] ext = None"
| "riot_first_category ((dest, extensions) # rest) ext =
     (if ext \<in> set extensions then Some (Path dest) else riot_first_category rest ext)"

definition riot_resolve_destination :: "(string \<Rightarrow> string) \<Rightarrow> path \<Rightarrow> path option" where
  "riot_resolve_destination lc file_path =
     (let ext = lc (path_suffix file_path) in riot_first_category riot_CATEGORY_MAP ext)"

function riot_unique_from :: "fsys \<Rightarrow> path \<Rightarrow> string \<Rightarrow> string \<Rightarrow> nat \<Rightarrow> path" where
  "riot_unique_from fs parent stem sfx counter =
     (let candidate = parent @ [numbered stem counter sfx]
      in if \<not> path_exists fs candidate then candidate
         else riot_unique_from fs parent stem sfx (counter + 1))"
  by pat_completeness auto
termination
  by (relation "measure (\<lambda>(fs, parent, stem, sfx, c).
        card {k. c \<le> k \<and> path_exists fs (parent @ [numbered stem k sfx])})")
     (simp_all add: numbered_measure)

declare riot_unique_from.simps [simp del]

definition riot_ensure_unique_path :: "fsys \<Rightarrow> path \<Rightarrow> path" where
  "riot_ensure_unique_path fs target =
     (if \<not> path_exists fs target then target
      else riot_unique_from fs (path_parent target) (path_stem target) (path_suffix target) 1)"

function riot_unique_dir_from :: "fsys \<Rightarrow> path \<Rightarrow> string \<Rightarrow> nat \<Rightarrow> path" where
  "riot_unique_dir_from fs parent name counter =
     (let candidate = parent @ [name @ '' ('' @ str_nat counter @ '')'']
      in if \<not> path_exists fs candidate then candidate
         else riot_unique_dir_from fs parent name (counter + 1))"
  by pat_completeness auto
termination
  by (relation "measure (\<lambda>(fs, parent, name, c).
        card {k. c \<le> k \<and> path_exists fs (parent @ [name @ '' ('' @ str_nat k @ '')''])})")
     (simp_all add: dir_candidate_measure[simplified])

declare riot_unique_dir_from.simps [simp del]

definition riot_ensure_unique_dir :: "fsys \<Rightarrow> path \<Rightarrow> path" where
  "riot_ensure_unique_dir fs target =
     (if \<not> path_exists fs target then target
      else riot_unique_dir_from fs (path_parent target) (path_name target) 1)"

fun riot_organize_entries ::
  "(string \<Rightarrow> string) \<Rightarrow> path \<Rightarrow> path list \<Rightarrow> fsys \<Rightarrow> moves \<Rightarrow> run" where
  "riot_organize_entries lc base_folder [] fs moves = Inr (fs, moves)"
| "riot_organize_entries lc base_folder (entry # rest) fs moves =
     (if is_dir fs entry then riot_organize_entries lc base_folder rest fs moves
      else
        let dest_subpath = riot_resolve_destination lc entry;
            dest_root = (case dest_subpath of None \<Rightarrow> Path riot_OTHER_FOLDER | Some d \<Rightarrow> d);
            dest_folder = base_folder @ dest_root
        in case mkdir_parents fs dest_folder of
             Inl e \<Rightarrow> Inl (e, fs)
           | Inr fs1 \<Rightarrow>
               let target = riot_ensure_unique_path fs1 (dest_folder @ [path_name entry])
               in (case move fs1 entry target of
                     Inl e \<Rightarrow> Inl (e, fs1)
                   | Inr fs2 \<Rightarrow>
                       riot_organize_entries lc base_folder rest fs2 (moves @ [(entry, target)])))"

fun riot_relocate_items :: "path \<Rightarrow> path list \<Rightarrow> fsys \<Rightarrow> moves \<Rightarrow> run" where
  "riot_relocate_items dest_dir [] fs moves = Inr (fs, moves)"
| "riot_relocate_items dest_dir (item # rest) fs moves =
     (if is_dir fs item then
        let target_dir = riot_ensure_unique_dir fs (dest_dir @ [path_name item])
        in (case move fs item target_dir of
              Inl e \<Rightarrow> Inl (e, fs)
            | Inr fs' \<Rightarrow> riot_relocate_items dest_dir rest fs' (moves @ [(item, target_dir)]))
      else
        let target_file = riot_ensure_unique_path fs (dest_dir @ [path_name item])
        in (case move fs item target_file of
              Inl e \<Rightarrow> Inl (e, fs)
            | Inr fs' \<Rightarrow> riot_relocate_items dest_dir rest fs' (moves @ [(item, target_file)])))"

fun riot_relocate_each :: "path \<Rightarrow> (string \<times> string) list \<Rightarrow> fsys \<Rightarrow> moves \<Rightarrow> run" where
  "riot_relocate_each base_folder [] fs moves = Inr (fs, moves)"
| "riot_relocate_each base_folder ((legacy_name, dest_rel) # rest) fs moves =
     (let src_dir = base_folder @ Path legacy_name
      in if \<not> path_exists fs src_dir \<or> \<not> is_dir fs src_dir
         then riot_relocate_each base_folder rest fs moves
         else
           let dest_dir = base_folder @ Path dest_rel
           in case mkdir_parents fs dest_dir of
                Inl e \<Rightarrow> Inl (e, fs)
              | Inr fs1 \<Rightarrow>
                  (case iterdir fs1 src_dir of
                     Inl e \<Rightarrow> Inl (e, fs1)
                   | Inr items \<Rightarrow>
                       (case riot_relocate_items dest_dir items fs1 moves of
                          Inl x \<Rightarrow> Inl x
                        | Inr (fs2, moves2) \<Rightarrow>
                            let fs3 = (case rmdir fs2 src_dir of Inl e \<Rightarrow> fs2 | Inr fs' \<Rightarrow> fs')
                            in riot_relocate_each base_folder rest fs3 moves2)))"

definition riot_relocate_legacy_folders :: "path \<Rightarrow> fsys \<Rightarrow> moves \<Rightarrow> run" where
  "riot_relocate_legacy_folders base_folder fs moves =
     riot_relocate_each base_folder riot_LEGACY_FOLDER_REMAP fs moves"

definition riot_organize_folder :: "(string \<Rightarrow> string) \<Rightarrow> path \<Rightarrow> fsys \<Rightarrow> run" where
  "riot_organize_folder lc base_folder fs =
     (case iterdir fs base_folder of
        Inl e \<Rightarrow> Inl (e, fs)
      | Inr entries \<Rightarrow>
          (case riot_organize_entries lc base_folder entries fs [] of
             Inl x \<Rightarrow> Inl x
           | Inr (fs1, moves) \<Rightarrow> riot_relocate_legacy_folders base_folder fs1 moves))"


section \<open>Notions used in the statements\<close>

definition is_move :: "effect \<Rightarrow> bool" where
  "is_move e = (case e of Move s d pre \<Rightarrow> True | Mkdir p \<Rightarrow> False | Rmdir p \<Rightarrow> False)"

definition fresh_move :: "path \<times> path \<Rightarrow> effect" where
  "fresh_move m = Move (fst m) (snd m) None"

text \<open>The effects a run adds to those of its initial state.\<close>

definition performed :: "fsys \<Rightarrow> run \<Rightarrow> effect list" where
  "performed fs r = drop (length (effects fs)) (effects (final_fs r))"

definition extends :: "fsys \<Rightarrow> fsys \<Rightarrow> effect list \<Rightarrow> bool" where
  "extends fs fs' new \<longleftrightarrow> effects fs' = effects fs @ new \<and> rmdir_denied fs' = rmdir_denied fs"

text \<open>The folder \<open>organize_folder\<close> moves an entry into.\<close>

definition dest_of :: "(string \<Rightarrow> string) \<Rightarrow> path \<Rightarrow> path \<Rightarrow> path" where
  "dest_of lc base_folder entry =
     base_folder @ (case resolve_destination lc entry of None \<Rightarrow> Path OTHER_FOLDER | Some d \<Rightarrow> d)"

text \<open>The folders, relative to the base folder, that \<open>organize_folder\<close> moves files into.\<close>

definition dest_roots :: "path list" where
  "dest_roots =
     [[''Documents'', ''Excel''], [''Documents'', ''Word''], [''Documents'', ''PDF''],
      [''Documents'', ''Text''], [''Media'', ''Images''], [''Media'', ''Videos''], [''Other'']]"


definition is_file :: "fsys \<Rightarrow> path \<Rightarrow> bool" where
  "is_file fs p =
     (case resolve (tree fs) p of Inl e \<Rightarrow> False | Inr (File c) \<Rightarrow> True | Inr (Dir es) \<Rightarrow> False)"

text \<open>No path from the root down to \<open>p\<close> is a file.\<close>

definition no_file_above :: "fsys \<Rightarrow> path \<Rightarrow> bool" where
  "no_file_above fs p \<longleftrightarrow> (\<forall>q\<in>set (prefixes p). \<not> is_file fs q)"

text \<open>Every path, relative to the base folder, that a run may create as a directory.\<close>

definition dest_dirs :: "path list" where
  "dest_dirs =
     [[''Documents''], [''Media''], [''Other''],
      [''Documents'', ''Excel''], [''Documents'', ''Word''], [''Documents'', ''PDF''],
      [''Documents'', ''Text''], [''Media'', ''Images''], [''Media'', ''Videos'']]"

text \<open>
  The state in which the pass over the listing cannot fail: the base folder is a
  directory, the entries still to visit are distinct children of it that exist, and no
  path of \<open>dest_dirs\<close> is a file.
\<close>

definition dests_free :: "fsys \<Rightarrow> path \<Rightarrow> bool" where
  "dests_free fs b \<longleftrightarrow> is_dir fs b \<and> (\<forall>p\<in>set dest_dirs. \<not> is_file fs (b @ p))"

definition listing_ok :: "fsys \<Rightarrow> path \<Rightarrow> path list \<Rightarrow> bool" where
  "listing_ok fs b es \<longleftrightarrow>
     distinct es \<and> (\<forall>e\<in>set es. (\<exists>n. e = b @ [n]) \<and> path_exists fs e)"

text \<open>A well-formed tree: the names of every directory are distinct.\<close>

fun wf_node :: "node \<Rightarrow> bool" where
  "wf_node (File c) = True"
| "wf_node (Dir es) = (distinct (map fst es) \<and> (\<forall>e\<in>set es. wf_node (snd e)))"

text \<open>The contents of all files of a tree, with multiplicity.\<close>

fun files :: "node \<Rightarrow> string multiset" where
  "files (File c) = {#c#}"
| "files (Dir es) = (\<Sum>e\<leftarrow>es. files (snd e))"

text \<open>A step that keeps a well-formed tree well formed and loses or adds no file.\<close>

definition keeps :: "fsys \<Rightarrow> fsys \<Rightarrow> bool" where
  "keeps fs fs' \<longleftrightarrow>
     (wf_node (tree fs) \<longrightarrow> wf_node (tree fs') \<and> files (tree fs') = files (tree fs))"

text \<open>
  The target that the collision resolver gives in the state \<open>g\<close> to an entry \<open>n\<close> bound for
  the path \<open>p\<close>: the file naming variant for a file, the directory naming variant for a
  directory.
\<close>

definition collision_safe :: "fsys \<Rightarrow> node \<Rightarrow> path \<Rightarrow> path" where
  "collision_safe g n p =
     (case n of File c \<Rightarrow> ensure_unique_path g p | Dir es \<Rightarrow> ensure_unique_dir g p)"

definition files_at :: "node \<Rightarrow> path \<Rightarrow> string multiset" where
  "files_at t p = (case resolve t p of Inl e \<Rightarrow> {#} | Inr n \<Rightarrow> files n)"

section \<open>Scenarios\<close>


definition report_fs :: fsys where
  "report_fs =
     \<lparr>tree = Dir [(''report.pdf'', File ''new''),
                  (''Documents'', Dir [(''PDF'', Dir [(''report.pdf'', File ''old'')])])],
      rmdir_denied = [], effects = []\<rparr>"

definition report_done :: fsys where
  "report_done =
     \<lparr>tree = Dir [(''Documents'',
                    Dir [(''PDF'', Dir [(''report.pdf'', File ''old''),
                                         (''report (1).pdf'', File ''new'')])])],
      rmdir_denied = [],
      effects = [Move [''report.pdf''] [''Documents'', ''PDF'', ''report (1).pdf''] None]\<rparr>"

definition plain_fs :: fsys where
  "plain_fs =
     \<lparr>tree = Dir [(''README'', File ''r''), (''.gitignore'', File ''g''),
                  (''pic.JPG'', File ''j''), (''notes.xyz'', File ''n'')],
      rmdir_denied = [], effects = []\<rparr>"

definition plain_done :: fsys where
  "plain_done =
     \<lparr>tree = Dir [(''Other'', Dir [(''README'', File ''r''), (''.gitignore'', File ''g''),
                                  (''notes.xyz'', File ''n'')]),
                  (''Media'', Dir [(''Images'', Dir [(''pic.JPG'', File ''j'')])])],
      rmdir_denied = [],
      effects = [Mkdir [''Other''], Move [''README''] [''Other'', ''README''] None,
                 Move [''.gitignore''] [''Other'', ''.gitignore''] None,
                 Mkdir [''Media''], Mkdir [''Media'', ''Images''],
                 Move [''pic.JPG''] [''Media'', ''Images'', ''pic.JPG''] None,
                 Move [''notes.xyz''] [''Other'', ''notes.xyz''] None]\<rparr>"

definition plain_moves :: moves where
  "plain_moves =
     [([''README''], [''Other'', ''README'']),
      ([''.gitignore''], [''Other'', ''.gitignore'']),
      ([''pic.JPG''], [''Media'', ''Images'', ''pic.JPG'']),
      ([''notes.xyz''], [''Other'', ''notes.xyz''])]"

definition other_fs :: fsys where
  "other_fs =
     \<lparr>tree = Dir [(''Other'', Dir [(''old.bin'', File ''o'')]), (''notes.xyz'', File ''n''),
                  (''Projects'', Dir [(''todo.txt'', File ''t'')])],
      rmdir_denied = [], effects = []\<rparr>"

definition other_done :: fsys where
  "other_done =
     \<lparr>tree = Dir [(''Other'', Dir [(''old.bin'', File ''o''), (''notes.xyz'', File ''n'')]),
                  (''Projects'', Dir [(''todo.txt'', File ''t'')])],
      rmdir_denied = [],
      effects = [Move [''notes.xyz''] [''Other'', ''notes.xyz''] None]\<rparr>"



definition excel_moves :: moves where
  "excel_moves =
     [([''Excel'', ''a.xls''], [''Documents'', ''Excel'', ''a.xls'']),
      ([''Excel'', ''b.xls''], [''Documents'', ''Excel'', ''b.xls''])]"

definition blocked_fs :: fsys where
  "blocked_fs = \<lparr>tree = Dir [(''Other'', File ''o'')], rmdir_denied = [], effects = []\<rparr>"




definition locked_fs :: fsys where
  "locked_fs =
     \<lparr>tree = Dir [(''Excel'', Dir [(''a.xls'', File ''a''), (''b.xls'', File ''b'')])],
      rmdir_denied = [[''Excel'']], effects = []\<rparr>"

definition locked_done :: fsys where
  "locked_done =
     \<lparr>tree = Dir [(''Excel'', Dir []),
                  (''Documents'',
                    Dir [(''Excel'', Dir [(''a.xls'', File ''a''), (''b.xls'', File ''b'')])])],
      rmdir_denied = [[''Excel'']],
      effects = [Mkdir [''Documents''], Mkdir [''Documents'', ''Excel''],
                 Move [''Excel'', ''a.xls''] [''Documents'', ''Excel'', ''a.xls''] None,
                 Move [''Excel'', ''b.xls''] [''Documents'', ''Excel'', ''b.xls''] None]\<rparr>"

section \<open>The tree under updates\<close>

lemma map_of_update: "map_of (AList.update k v al) k' = (if k' = k then Some v else map_of al k')"
  by (simp add: update_conv')

lemma map_of_delete: "map_of (AList.delete k al) k' = (if k' = k then None else map_of al k')"
  by (simp add: delete_conv')

lemma set_entry_defined:
  "set_entry t p v = Some t' \<Longrightarrow> p \<noteq> [] \<and> (\<exists>es. resolve t (butlast p) = Inr (Dir es))"
  by (induction t p v arbitrary: t' rule: set_entry.induct) (auto split: option.splits)

lemma set_entry_total:
  "p \<noteq> [] \<Longrightarrow> resolve t (butlast p) = Inr (Dir es) \<Longrightarrow> \<exists>t'. set_entry t p v = Some t'"
proof (induction t p v arbitrary: es rule: set_entry.induct)
  case (4 es0 x y p v)
  from 4(2,3) obtain c where c: "map_of es0 x = Some c" and r: "resolve c (butlast (y # p)) = Inr (Dir es)"
    by (auto split: option.splits)
  from 4(1)[OF c _ r] obtain c' where "set_entry c (y # p) v = Some c'" by auto
  with c show ?case by simp
qed (auto split: if_splits)

lemma resolve_set_entry_below:
  "set_entry t p v = Some t' \<Longrightarrow>
   resolve t' (p @ q) = (case v of None \<Rightarrow> Inl ENOENT | Some n \<Rightarrow> resolve n q)"
  by (induction t p v arbitrary: t' rule: set_entry.induct)
     (auto simp: map_of_update map_of_delete split: option.splits)

lemma resolve_set_entry_same:
  "set_entry t p v = Some t' \<Longrightarrow>
   resolve t' p = (case v of None \<Rightarrow> Inl ENOENT | Some n \<Rightarrow> Inr n)"
  using resolve_set_entry_below[of t p v t' "[]"] by (simp split: option.splits)

lemma resolve_set_entry_other:
  "set_entry t p v = Some t' \<Longrightarrow> \<not> prefix p q \<Longrightarrow> \<not> prefix q p \<Longrightarrow> resolve t' q = resolve t q"
proof (induction t p v arbitrary: t' q rule: set_entry.induct)
  case (3 es x v)
  then show ?case by (cases q) (auto simp: map_of_update map_of_delete split: option.splits)
next
  case (4 es x y p v)
  then show ?case by (cases q) (auto simp: map_of_update map_of_delete split: option.splits)
qed simp_all

lemma resolve_set_entry_above:
  "set_entry t p v = Some t' \<Longrightarrow> strict_prefix q p \<Longrightarrow>
   \<exists>es es'. resolve t q = Inr (Dir es) \<and> resolve t' q = Inr (Dir es')"
proof (induction t p v arbitrary: t' q rule: set_entry.induct)
  case (3 es x v)
  then show ?case by (cases q) (auto simp: map_of_update map_of_delete split: option.splits)
next
  case (4 es x y p v)
  then show ?case by (cases q) (auto simp: map_of_update map_of_delete split: option.splits)
qed simp_all

lemma kind_of_simps [simp]:
  "kind_of (Inl e) = Absent" "kind_of (Inr (File c)) = IsFile c" "kind_of (Inr (Dir es)) = IsDir"
  by (simp_all add: kind_of_def)

lemma path_exists_kind: "path_exists fs q \<longleftrightarrow> kind_at fs q \<noteq> Absent"
  by (auto simp: path_exists_def kind_at_def kind_of_def split: sum.splits node.splits)

lemma is_dir_kind: "is_dir fs q \<longleftrightarrow> kind_at fs q = IsDir"
  by (auto simp: is_dir_def kind_at_def kind_of_def split: sum.splits node.splits)

lemma kind_of_set_entry:
  assumes "set_entry t p v = Some t'"
  shows "kind_of (resolve t' q) =
     (if prefix p q then (case v of None \<Rightarrow> Absent | Some n \<Rightarrow> kind_of (resolve n (drop (length p) q)))
      else kind_of (resolve t q))"
proof (cases "prefix p q")
  case True
  then obtain r where q: "q = p @ r" by (auto simp: prefix_def)
  show ?thesis using resolve_set_entry_below[OF assms, of r] True q
    by (simp split: option.splits)
next
  case False
  show ?thesis
  proof (cases "prefix q p")
    case True
    with False have "strict_prefix q p" by (auto simp: strict_prefix_def)
    from resolve_set_entry_above[OF assms this] False show ?thesis by auto
  next
    case nq: False
    from resolve_set_entry_other[OF assms False nq] False show ?thesis by simp
  qed
qed

lemma resolve_File_Cons [simp]: "r \<noteq> [] \<Longrightarrow> resolve (File c) r = Inl ENOTDIR"
  by (cases r) auto

lemma kind_prefix_absent:
  "kind_of (resolve t p) = Absent \<Longrightarrow> prefix p q \<Longrightarrow> kind_of (resolve t q) = Absent"
  by (cases "resolve t p") (auto simp: prefix_def resolve_append kind_of_def split: node.splits)

lemma kind_below_nondir:
  "kind_of (resolve t p) \<noteq> IsDir \<Longrightarrow> strict_prefix p q \<Longrightarrow> kind_of (resolve t q) = Absent"
proof -
  assume k: "kind_of (resolve t p) \<noteq> IsDir" and sp: "strict_prefix p q"
  then obtain r where q: "q = p @ r" and r: "r \<noteq> []" by (auto simp: strict_prefix_def prefix_def)
  show ?thesis
  proof (cases "resolve t p")
    case (Inl e)
    then show ?thesis by (simp add: q resolve_append)
  next
    case (Inr n)
    with k obtain c where "n = File c" by (cases n) auto
    with Inr r show ?thesis by (simp add: q resolve_append)
  qed
qed

lemma os_mkdir_Inr:
  "os_mkdir fs p = Inr fs' \<Longrightarrow>
   \<exists>t. set_entry (tree fs) p (Some (Dir [])) = Some t \<and>
       fs' = fs\<lparr>tree := t, effects := effects fs @ [Mkdir p]\<rparr> \<and> kind_at fs p = Absent"
  by (auto simp: os_mkdir_def kind_at_def split: sum.splits node.splits option.splits)

lemma os_mkdir_kind:
  assumes "os_mkdir fs p = Inr fs'"
  shows "kind_at fs' q = (if q = p then IsDir else kind_at fs q)"
proof -
  from os_mkdir_Inr[OF assms] obtain t where
    t: "set_entry (tree fs) p (Some (Dir [])) = Some t" and fs': "fs' = fs\<lparr>tree := t, effects := effects fs @ [Mkdir p]\<rparr>"
    and ab: "kind_at fs p = Absent" by blast
  have k: "kind_at fs' q = (if prefix p q then kind_of (resolve (Dir []) (drop (length p) q)) else kind_at fs q)"
    using kind_of_set_entry[OF t, of q] fs' by (simp add: kind_at_def)
  show ?thesis
  proof (cases "prefix p q")
    case True
    then obtain r where q: "q = p @ r" by (auto simp: prefix_def)
    show ?thesis
    proof (cases r)
      case Nil
      with k q show ?thesis by simp
    next
      case (Cons a r')
      have "kind_at fs q = Absent" using ab True kind_prefix_absent by (simp add: kind_at_def)
      with k q Cons show ?thesis by simp
    qed
  next
    case False
    with k show ?thesis by auto
  qed
qed

lemma mkdir_exist_ok_kind:
  assumes "mkdir_exist_ok fs p = Inr fs'"
  shows "kind_at fs' q = (if q = p then IsDir else kind_at fs q)"
  using assms os_mkdir_kind[of fs p _ q]
  by (auto simp: mkdir_exist_ok_def is_dir_kind split: sum.splits if_splits)

lemma mkdir_parents_kind:
  "mkdir_parents fs p = Inr fs' \<Longrightarrow> kind_at fs' q = (if prefix q p then IsDir else kind_at fs q)"
proof (induction fs p arbitrary: fs' rule: mkdir_parents.induct)
  case (1 fs p)
  show ?case
  proof (cases "os_mkdir fs p")
    case (Inr fs1)
    with 1(2) have e: "fs' = fs1" by (subst (asm) mkdir_parents.simps) simp
    from os_mkdir_Inr[OF Inr] obtain t where t: "set_entry (tree fs) p (Some (Dir [])) = Some t" by blast
    show ?thesis
    proof (cases "strict_prefix q p")
      case True
      from resolve_set_entry_above[OF t True] have "kind_at fs q = IsDir" by (auto simp: kind_at_def)
      with os_mkdir_kind[OF Inr, of q] e True show ?thesis by (auto simp: strict_prefix_def)
    next
      case False
      with os_mkdir_kind[OF Inr, of q] e show ?thesis by (auto simp: strict_prefix_def)
    qed
  next
    case (Inl e)
    show ?thesis
    proof (cases "e = ENOENT")
      case True
      with Inl 1(2) have pne: "p \<noteq> []" by (subst (asm) mkdir_parents.simps) (auto split: if_splits)
      with Inl True 1(2) obtain fs1 where m1: "mkdir_parents fs (butlast p) = Inr fs1" and m2: "mkdir_exist_ok fs1 p = Inr fs'"
        by (subst (asm) mkdir_parents.simps) (auto split: sum.splits)
      from 1(1)[OF Inl True pne m1] have k1: "kind_at fs1 q = (if prefix q (butlast p) then IsDir else kind_at fs q)" .
      from mkdir_exist_ok_kind[OF m2, of q] have k2: "kind_at fs' q = (if q = p then IsDir else kind_at fs1 q)" .
      have "prefix q p \<longleftrightarrow> q = p \<or> prefix q (butlast p)"
        using pne by (metis append_butlast_last_id prefix_snoc)
      with k1 k2 show ?thesis by auto
    next
      case False
      with Inl 1(2) have d: "is_dir fs p" and e: "fs' = fs" by (subst (asm) mkdir_parents.simps; auto split: if_splits)+
      have "prefix q p \<Longrightarrow> kind_at fs q = IsDir"
      proof -
        assume pq: "prefix q p"
        show ?thesis
        proof (rule ccontr)
          assume "kind_at fs q \<noteq> IsDir"
          with pq d have "strict_prefix q p" by (auto simp: is_dir_kind strict_prefix_def)
          from kind_below_nondir[OF _ this, of "tree fs"] \<open>kind_at fs q \<noteq> IsDir\<close> d show False by (simp add: kind_at_def is_dir_kind)
        qed
      qed
      with e show ?thesis by auto
    qed
  qed
qed


section \<open>The primitives\<close>

lemma move_fresh_Inr:
  assumes "move fs src dst = Inr fs'" and "\<not> path_exists fs dst"
  shows "\<exists>n t1 t2. resolve (tree fs) src = Inr n \<and> set_entry (tree fs) src None = Some t1 \<and>
           set_entry t1 dst (Some n) = Some t2 \<and>
           fs' = fs\<lparr>tree := t2, effects := effects fs @ [Move src dst None]\<rparr> \<and>
           \<not> prefix src dst \<and> \<not> prefix dst src"
proof -
  from assms(2) have nd: "\<not> is_dir fs dst" and ab: "kind_at fs dst = Absent"
    by (auto simp: path_exists_kind is_dir_kind)
  from assms(2) have pre: "(case resolve (tree fs) dst of Inl e \<Rightarrow> None | Inr n \<Rightarrow> Some n) = None"
    by (auto simp: path_exists_def split: sum.splits)
  from assms(1) nd obtain n where n: "resolve (tree fs) src = Inr n"
    by (auto simp: move_def Let_def split: sum.splits if_splits)
  have "\<not> prefix dst src"
  proof
    assume "prefix dst src"
    from kind_prefix_absent[OF _ this, of "tree fs"] ab n show False by (auto simp: kind_at_def kind_of_def split: node.splits)
  qed
  with assms(1) nd n pre show ?thesis
    by (auto simp: move_def Let_def split: sum.splits if_splits option.splits)
qed

lemma move_fresh_kind:
  assumes "move fs src dst = Inr fs'" and "\<not> path_exists fs dst"
  shows "kind_at fs' q =
     (if prefix dst q then kind_at fs (src @ drop (length dst) q)
      else if prefix src q then Absent else kind_at fs q)"
proof -
  from move_fresh_Inr[OF assms] obtain n t1 t2 where
    n: "resolve (tree fs) src = Inr n" and t1: "set_entry (tree fs) src None = Some t1"
    and t2: "set_entry t1 dst (Some n) = Some t2" and fs': "tree fs' = t2" by auto
  have "kind_of (resolve n r) = kind_at fs (src @ r)" for r
    by (simp add: kind_at_def resolve_append n)
  then show ?thesis
    using kind_of_set_entry[OF t2, of q] kind_of_set_entry[OF t1, of q] fs'
    by (simp add: kind_at_def)
qed

lemma move_fresh_frame:
  assumes "move fs src dst = Inr fs'" and "\<not> path_exists fs dst"
    and "\<not> prefix src q" "\<not> prefix q src" "\<not> prefix dst q" "\<not> prefix q dst"
  shows "resolve (tree fs') q = resolve (tree fs) q"
proof -
  from move_fresh_Inr[OF assms(1,2)] obtain n t1 t2 where
    t1: "set_entry (tree fs) src None = Some t1"
    and t2: "set_entry t1 dst (Some n) = Some t2" and fs': "tree fs' = t2" by auto
  show ?thesis using resolve_set_entry_other[OF t1 assms(3,4)] resolve_set_entry_other[OF t2 assms(5,6)] fs'
    by simp
qed

lemma move_fresh_target:
  assumes "move fs src dst = Inr fs'" and "\<not> path_exists fs dst"
  shows "resolve (tree fs') dst = resolve (tree fs) src"
proof -
  from move_fresh_Inr[OF assms(1,2)] obtain n t1 t2 where
    n: "resolve (tree fs) src = Inr n" and
    t2: "set_entry t1 dst (Some n) = Some t2" and fs': "tree fs' = t2" by auto
  show ?thesis using resolve_set_entry_same[OF t2] fs' n by simp
qed

lemma move_fresh_effects:
  assumes "move fs src dst = Inr fs'" and "\<not> path_exists fs dst"
  shows "effects fs' = effects fs @ [Move src dst None]" "rmdir_denied fs' = rmdir_denied fs"
  using move_fresh_Inr[OF assms] by auto

lemma rmdir_Inr:
  "rmdir fs p = Inr fs' \<Longrightarrow>
   resolve (tree fs) p = Inr (Dir []) \<and> p \<notin> set (rmdir_denied fs) \<and>
   (\<exists>t. set_entry (tree fs) p None = Some t \<and> fs' = fs\<lparr>tree := t, effects := effects fs @ [Rmdir p]\<rparr>)"
  by (auto simp: rmdir_def split: sum.splits node.splits if_splits option.splits)

lemma rmdir_kind:
  assumes "rmdir fs p = Inr fs'"
  shows "kind_at fs' q = (if q = p then Absent else kind_at fs q)"
proof -
  from rmdir_Inr[OF assms] obtain t where e: "resolve (tree fs) p = Inr (Dir [])"
    and t: "set_entry (tree fs) p None = Some t" and fs': "tree fs' = t" by auto
  have "kind_at fs (p @ r) = Absent" if "r \<noteq> []" for r
    using that e by (cases r) (simp_all add: kind_at_def resolve_append)
  then have "prefix p q \<Longrightarrow> q \<noteq> p \<Longrightarrow> kind_at fs q = Absent"
    by (auto simp: prefix_def)
  then show ?thesis using kind_of_set_entry[OF t, of q] fs' by (auto simp: kind_at_def)
qed

lemma rmdir_frame:
  assumes "rmdir fs p = Inr fs'" and "\<not> prefix p q" "\<not> prefix q p"
  shows "resolve (tree fs') q = resolve (tree fs) q"
proof -
  from rmdir_Inr[OF assms(1)] obtain t where
    t: "set_entry (tree fs) p None = Some t" and fs': "tree fs' = t" by auto
  show ?thesis using resolve_set_entry_other[OF t assms(2,3)] fs' by simp
qed

lemma rmdir_effects:
  assumes "rmdir fs p = Inr fs'"
  shows "effects fs' = effects fs @ [Rmdir p]" "rmdir_denied fs' = rmdir_denied fs"
  using rmdir_Inr[OF assms] by auto

lemma os_mkdir_frame:
  assumes "os_mkdir fs p = Inr fs'" and "path_exists fs q" "\<not> prefix q p"
  shows "resolve (tree fs') q = resolve (tree fs) q"
proof -
  from os_mkdir_Inr[OF assms(1)] obtain t where
    t: "set_entry (tree fs) p (Some (Dir [])) = Some t" and fs': "tree fs' = t"
    and ab: "kind_at fs p = Absent" by auto
  have "\<not> prefix p q"
  proof
    assume "prefix p q"
    from kind_prefix_absent[OF _ this, of "tree fs"] ab assms(2) show False
      by (simp add: kind_at_def path_exists_kind)
  qed
  from resolve_set_entry_other[OF t this assms(3)] fs' show ?thesis by simp
qed

lemma mkdir_exist_ok_frame:
  assumes "mkdir_exist_ok fs p = Inr fs'" and "path_exists fs q" "\<not> prefix q p"
  shows "resolve (tree fs') q = resolve (tree fs) q"
  using assms os_mkdir_frame[of fs p _ q]
  by (auto simp: mkdir_exist_ok_def split: sum.splits if_splits)

lemma mkdir_parents_frame:
  "mkdir_parents fs p = Inr fs' \<Longrightarrow> path_exists fs q \<Longrightarrow> \<not> prefix q p \<Longrightarrow>
   resolve (tree fs') q = resolve (tree fs) q"
proof (induction fs p arbitrary: fs' rule: mkdir_parents.induct)
  case (1 fs p)
  show ?case
  proof (cases "os_mkdir fs p")
    case (Inr fs1)
    with 1(2) have "fs' = fs1" by (subst (asm) mkdir_parents.simps) simp
    with os_mkdir_frame[OF Inr 1(3,4)] show ?thesis by simp
  next
    case (Inl e)
    show ?thesis
    proof (cases "e = ENOENT")
      case True
      with Inl 1(2) have pne: "p \<noteq> []" by (subst (asm) mkdir_parents.simps) (auto split: if_splits)
      with Inl True 1(2) obtain fs1 where m1: "mkdir_parents fs (butlast p) = Inr fs1"
        and m2: "mkdir_exist_ok fs1 p = Inr fs'"
        by (subst (asm) mkdir_parents.simps) (auto split: sum.splits)
      have np: "\<not> prefix q (butlast p)" using 1(4) pne
        by (metis append_butlast_last_id prefix_snoc)
      from 1(1)[OF Inl True pne m1 1(3) np] have r1: "resolve (tree fs1) q = resolve (tree fs) q" .
      then have "path_exists fs1 q" using 1(3) by (simp add: path_exists_def)
      from mkdir_exist_ok_frame[OF m2 this 1(4)] r1 show ?thesis by simp
    next
      case False
      with Inl 1(2) have "fs' = fs" by (subst (asm) mkdir_parents.simps) (auto split: if_splits)
      then show ?thesis by simp
    qed
  qed
qed

lemma mkdir_parents_effects:
  "mkdir_parents fs p = Inr fs' \<Longrightarrow>
   rmdir_denied fs' = rmdir_denied fs \<and> (\<exists>es. effects fs' = effects fs @ es \<and> (\<forall>e\<in>set es. \<exists>p. e = Mkdir p))"
proof (induction fs p arbitrary: fs' rule: mkdir_parents.induct)
  case (1 fs p)
  show ?case
  proof (cases "os_mkdir fs p")
    case (Inr fs1)
    with 1(2) have "fs' = fs1" by (subst (asm) mkdir_parents.simps) simp
    with os_mkdir_Inr[OF Inr] show ?thesis by auto
  next
    case (Inl e)
    show ?thesis
    proof (cases "e = ENOENT")
      case True
      with Inl 1(2) have pne: "p \<noteq> []" by (subst (asm) mkdir_parents.simps) (auto split: if_splits)
      with Inl True 1(2) obtain fs1 where m1: "mkdir_parents fs (butlast p) = Inr fs1"
        and m2: "mkdir_exist_ok fs1 p = Inr fs'"
        by (subst (asm) mkdir_parents.simps) (auto split: sum.splits)
      from 1(1)[OF Inl True pne m1] obtain es where
        a: "rmdir_denied fs1 = rmdir_denied fs" "effects fs1 = effects fs @ es" "\<forall>e\<in>set es. \<exists>p. e = Mkdir p"
        by auto
      from m2 have "fs' = fs1 \<or> os_mkdir fs1 p = Inr fs'"
        by (auto simp: mkdir_exist_ok_def split: sum.splits if_splits)
      then show ?thesis
      proof
        assume "fs' = fs1" with a show ?thesis by auto
      next
        assume "os_mkdir fs1 p = Inr fs'"
        from os_mkdir_Inr[OF this] a show ?thesis by auto
      qed
    next
      case False
      with Inl 1(2) have "fs' = fs" by (subst (asm) mkdir_parents.simps) (auto split: if_splits)
      then show ?thesis by simp
    qed
  qed
qed

lemma unique_from_spec:
  "\<exists>N\<ge>c. unique_from fs parent stem sfx c = parent @ [numbered stem N sfx] \<and>
     \<not> path_exists fs (parent @ [numbered stem N sfx]) \<and>
     (\<forall>k. c \<le> k \<and> k < N \<longrightarrow> path_exists fs (parent @ [numbered stem k sfx]))"
proof (induction fs parent stem sfx c rule: unique_from.induct)
  case (1 fs parent stem sfx counter)
  show ?case
  proof (cases "path_exists fs (parent @ [numbered stem counter sfx])")
    case False
    then have "unique_from fs parent stem sfx counter = parent @ [numbered stem counter sfx]"
      by (subst unique_from.simps) simp
    with False show ?thesis by (intro exI[of _ counter]) auto
  next
    case True
    then have u: "unique_from fs parent stem sfx counter = unique_from fs parent stem sfx (counter + 1)"
      by (subst unique_from.simps) simp
    from 1[OF refl] True obtain N where N: "N \<ge> counter + 1"
      "unique_from fs parent stem sfx (counter + 1) = parent @ [numbered stem N sfx]"
      "\<not> path_exists fs (parent @ [numbered stem N sfx])"
      "\<forall>k. counter + 1 \<le> k \<and> k < N \<longrightarrow> path_exists fs (parent @ [numbered stem k sfx])"
      by auto
    have "\<forall>k. counter \<le> k \<and> k < N \<longrightarrow> path_exists fs (parent @ [numbered stem k sfx])"
    proof (intro allI impI)
      fix k assume "counter \<le> k \<and> k < N"
      then have "k = counter \<or> (counter + 1 \<le> k \<and> k < N)" by auto
      with True N(4) show "path_exists fs (parent @ [numbered stem k sfx])" by auto
    qed
    with N u show ?thesis by (intro exI[of _ N]) auto
  qed
qed

lemma unique_dir_from_spec:
  "\<exists>N\<ge>c. unique_dir_from fs parent name c = parent @ [name @ '' ('' @ str_nat N @ '')''] \<and>
     \<not> path_exists fs (parent @ [name @ '' ('' @ str_nat N @ '')'']) \<and>
     (\<forall>k. c \<le> k \<and> k < N \<longrightarrow> path_exists fs (parent @ [name @ '' ('' @ str_nat k @ '')'']))"
proof (induction fs parent name c rule: unique_dir_from.induct)
  case (1 fs parent name counter)
  show ?case
  proof (cases "path_exists fs (parent @ [name @ '' ('' @ str_nat counter @ '')''])")
    case False
    then have "unique_dir_from fs parent name counter = parent @ [name @ '' ('' @ str_nat counter @ '')'']"
      by (subst unique_dir_from.simps) simp
    with False show ?thesis by (intro exI[of _ counter]) auto
  next
    case True
    then have u: "unique_dir_from fs parent name counter = unique_dir_from fs parent name (counter + 1)"
      by (subst unique_dir_from.simps) simp
    from 1[OF refl] True obtain N where N: "N \<ge> counter + 1"
      "unique_dir_from fs parent name (counter + 1) = parent @ [name @ '' ('' @ str_nat N @ '')'']"
      "\<not> path_exists fs (parent @ [name @ '' ('' @ str_nat N @ '')''])"
      "\<forall>k. counter + 1 \<le> k \<and> k < N \<longrightarrow> path_exists fs (parent @ [name @ '' ('' @ str_nat k @ '')''])"
      by auto
    have "\<forall>k. counter \<le> k \<and> k < N \<longrightarrow> path_exists fs (parent @ [name @ '' ('' @ str_nat k @ '')''])"
    proof (intro allI impI)
      fix k assume "counter \<le> k \<and> k < N"
      then have "k = counter \<or> (counter + 1 \<le> k \<and> k < N)" by auto
      with True N(4) show "path_exists fs (parent @ [name @ '' ('' @ str_nat k @ '')''])" by auto
    qed
    with N u show ?thesis by (intro exI[of _ N]) auto
  qed
qed

lemma ensure_unique_path_fresh: "\<not> path_exists fs (ensure_unique_path fs target)"
  using unique_from_spec[of 1 fs "path_parent target" "path_stem target" "path_suffix target"]
  by (auto simp: ensure_unique_path_def)

lemma ensure_unique_dir_fresh: "\<not> path_exists fs (ensure_unique_dir fs target)"
  using unique_dir_from_spec[of 1 fs "path_parent target" "path_name target"]
  by (auto simp: ensure_unique_dir_def)

lemma ensure_unique_path_parent:
  "target \<noteq> [] \<Longrightarrow> ensure_unique_path fs target \<noteq> [] \<and> butlast (ensure_unique_path fs target) = butlast target"
  using unique_from_spec[of 1 fs "path_parent target" "path_stem target" "path_suffix target"]
  by (auto simp: ensure_unique_path_def path_parent_def)

lemma ensure_unique_dir_parent:
  "target \<noteq> [] \<Longrightarrow> ensure_unique_dir fs target \<noteq> [] \<and> butlast (ensure_unique_dir fs target) = butlast target"
  using unique_dir_from_spec[of 1 fs "path_parent target" "path_name target"]
  by (auto simp: ensure_unique_dir_def path_parent_def)


section \<open>The two source files agree\<close>


lemma riot_first_category_eq: "riot_first_category cm ext = first_category cm ext"
  by (induction cm ext rule: first_category.induct) auto

lemma riot_tables_eq:
  "riot_CATEGORY_MAP = CATEGORY_MAP" "riot_LEGACY_FOLDER_REMAP = LEGACY_FOLDER_REMAP"
  "riot_OTHER_FOLDER = OTHER_FOLDER"
  by (simp_all add: riot_CATEGORY_MAP_def CATEGORY_MAP_def riot_LEGACY_FOLDER_REMAP_def
      LEGACY_FOLDER_REMAP_def riot_OTHER_FOLDER_def OTHER_FOLDER_def)

lemma riot_resolve_destination_eq: "riot_resolve_destination lc p = resolve_destination lc p"
  by (simp add: riot_resolve_destination_def resolve_destination_def riot_first_category_eq
      riot_tables_eq)

lemma riot_unique_from_eq: "riot_unique_from fs parent stem sfx c = unique_from fs parent stem sfx c"
proof (induction fs parent stem sfx c rule: unique_from.induct)
  case (1 fs parent stem sfx counter)
  show ?case
    using 1 by (subst riot_unique_from.simps, subst unique_from.simps) (simp add: Let_def)
qed

lemma riot_unique_dir_from_eq: "riot_unique_dir_from fs parent name c = unique_dir_from fs parent name c"
proof (induction fs parent name c rule: unique_dir_from.induct)
  case (1 fs parent name counter)
  show ?case
    using 1 by (subst riot_unique_dir_from.simps, subst unique_dir_from.simps) (simp add: Let_def)
qed

lemma riot_ensure_unique_path_eq: "riot_ensure_unique_path fs t = ensure_unique_path fs t"
  by (simp add: riot_ensure_unique_path_def ensure_unique_path_def riot_unique_from_eq)

lemma riot_ensure_unique_dir_eq: "riot_ensure_unique_dir fs t = ensure_unique_dir fs t"
  by (simp add: riot_ensure_unique_dir_def ensure_unique_dir_def riot_unique_dir_from_eq)

lemma riot_organize_entries_eq:
  "riot_organize_entries lc b es fs ms = organize_entries lc b es fs ms"
  by (induction es arbitrary: fs ms)
     (simp_all add: riot_resolve_destination_eq riot_ensure_unique_path_eq riot_tables_eq Let_def
        cong: option.case_cong sum.case_cong)

lemma riot_relocate_items_eq:
  "riot_relocate_items d items fs ms = relocate_items d items fs ms"
  by (induction items arbitrary: fs ms)
     (simp_all add: riot_ensure_unique_path_eq riot_ensure_unique_dir_eq Let_def
        cong: sum.case_cong)

lemma riot_relocate_each_eq:
  "riot_relocate_each b lm fs ms = relocate_each b lm fs ms"
proof (induction lm arbitrary: fs ms)
  case Nil
  show ?case by simp
next
  case (Cons a lm)
  obtain legacy_name dest_rel where a: "a = (legacy_name, dest_rel)" by (cases a)
  show ?case unfolding a
    by (simp add: riot_relocate_items_eq Let_def Cons cong: sum.case_cong prod.case_cong)
qed

text \<open>
  Claim C10. The functions \<open>resolve_destination\<close>, \<open>ensure_unique_path\<close>,
  \<open>ensure_unique_dir\<close>, \<open>organize_folder\<close> and \<open>relocate_legacy_folders\<close> of
  organize\_gui.py and their namesakes of organize\_gui\_riot.py are extensionally equal:
  on every input and every filesystem state they return the same result and the same
  final state, which holds the sequence of the effects performed.
\<close>

theorem variants_equal:
  "riot_resolve_destination = resolve_destination \<and>
   riot_ensure_unique_path = ensure_unique_path \<and>
   riot_ensure_unique_dir = ensure_unique_dir \<and>
   riot_organize_folder = organize_folder \<and>
   riot_relocate_legacy_folders = relocate_legacy_folders"
  by (intro conjI ext)
     (simp_all cong: sum.case_cong prod.case_cong add: riot_resolve_destination_eq riot_ensure_unique_path_eq
        riot_ensure_unique_dir_eq riot_organize_folder_def organize_folder_def
        riot_relocate_legacy_folders_def relocate_legacy_folders_def riot_organize_entries_eq
        riot_relocate_each_eq riot_tables_eq)

section \<open>The collision resolver\<close>



lemma extends_refl: "extends fs fs []"
  by (simp add: extends_def)

lemma extends_trans: "extends a b x \<Longrightarrow> extends b c y \<Longrightarrow> extends a c (x @ y)"
  by (simp add: extends_def)

lemma is_move_simps [simp]:
  "is_move (Move s d pre)" "\<not> is_move (Mkdir p)" "\<not> is_move (Rmdir p)"
  by (simp_all add: is_move_def)

section \<open>The effects of a run\<close>

lemma no_moves: "filter is_move n = [] \<Longrightarrow> Move s t pre \<notin> set n"
  by (auto simp: filter_empty_conv)

lemma mkdir_parents_extends:
  assumes "mkdir_parents fs p = Inr fs'"
  shows "\<exists>new. extends fs fs' new \<and> filter is_move new = []"
proof -
  from mkdir_parents_effects[OF assms] obtain es where
    "rmdir_denied fs' = rmdir_denied fs" "effects fs' = effects fs @ es" "\<forall>e\<in>set es. \<exists>p. e = Mkdir p"
    by auto
  then show ?thesis
    by (intro exI[of _ es]) (auto simp: extends_def filter_empty_conv)
qed

lemma move_fresh_extends:
  assumes "move fs src dst = Inr fs'" and "\<not> path_exists fs dst"
  shows "extends fs fs' [Move src dst None]"
  using move_fresh_effects[OF assms] by (simp add: extends_def)

lemma rmdir_extends:
  "\<exists>new. extends fs (case rmdir fs p of Inl e \<Rightarrow> fs | Inr fs' \<Rightarrow> fs') new \<and> filter is_move new = []"
proof (cases "rmdir fs p")
  case (Inl e)
  then show ?thesis by (auto intro: exI[of _ "[]"] simp: extends_def)
next
  case (Inr fs')
  from rmdir_effects[OF Inr] Inr show ?thesis
    by (auto intro!: exI[of _ "[Rmdir p]"] simp: extends_def)
qed

lemma organize_entries_log:
  "\<exists>new. extends fs (final_fs (organize_entries lc b es fs ms)) new \<and>
     (\<forall>s d pre. Move s d pre \<in> set new \<longrightarrow> pre = None) \<and>
     (\<forall>fs' ms'. organize_entries lc b es fs ms = Inr (fs', ms') \<longrightarrow>
        (\<exists>newm. ms' = ms @ newm \<and> filter is_move new = map fresh_move newm))"
proof (induction es arbitrary: fs ms)
  case Nil
  show ?case by (auto intro!: exI[of _ "[]"] simp: final_fs_def extends_def)
next
  case (Cons entry rest)
  show ?case
  proof (cases "is_dir fs entry")
    case True
    with Cons[of fs ms] show ?thesis by simp
  next
    case nd: False
    define dest_folder where "dest_folder =
      b @ (case resolve_destination lc entry of None \<Rightarrow> Path OTHER_FOLDER | Some d \<Rightarrow> d)"
    show ?thesis
    proof (cases "mkdir_parents fs dest_folder")
      case (Inl e)
      with nd show ?thesis
        by (auto intro!: exI[of _ "[]"] simp: final_fs_def extends_def Let_def dest_folder_def)
    next
      case (Inr fs1)
      from mkdir_parents_extends[OF Inr] obtain n1 where n1: "extends fs fs1 n1" "filter is_move n1 = []"
        by blast
      define target where "target = ensure_unique_path fs1 (dest_folder @ [path_name entry])"
      have fr: "\<not> path_exists fs1 target" unfolding target_def by (rule ensure_unique_path_fresh)
      show ?thesis
      proof (cases "move fs1 entry target")
        case (Inl e)
        with nd Inr have "organize_entries lc b (entry # rest) fs ms = Inl (e, fs1)"
          by (simp add: Let_def dest_folder_def target_def)
        with n1 show ?thesis
          by (auto intro!: exI[of _ n1] simp: final_fs_def filter_empty_conv)
      next
        case (Inr fs2)
        from move_fresh_extends[OF Inr fr] have n2: "extends fs1 fs2 [Move entry target None]" .
        from nd \<open>mkdir_parents fs dest_folder = Inr fs1\<close> Inr
        have step: "organize_entries lc b (entry # rest) fs ms =
             organize_entries lc b rest fs2 (ms @ [(entry, target)])"
          by (simp add: Let_def dest_folder_def target_def)
        from Cons[of fs2 "ms @ [(entry, target)]"] obtain n3 where
          n3: "extends fs2 (final_fs (organize_entries lc b rest fs2 (ms @ [(entry, target)]))) n3"
          "\<forall>s d pre. Move s d pre \<in> set n3 \<longrightarrow> pre = None"
          "\<forall>fs' ms'. organize_entries lc b rest fs2 (ms @ [(entry, target)]) = Inr (fs', ms') \<longrightarrow>
             (\<exists>newm. ms' = (ms @ [(entry, target)]) @ newm \<and> filter is_move n3 = map fresh_move newm)"
          by blast
        have e: "extends fs (final_fs (organize_entries lc b (entry # rest) fs ms)) (n1 @ [Move entry target None] @ n3)"
          unfolding step using extends_trans[OF n1(1) extends_trans[OF n2 n3(1)]] by simp
        have c: "\<forall>s d pre. Move s d pre \<in> set (n1 @ [Move entry target None] @ n3) \<longrightarrow> pre = None"
          using n1(2) n3(2) by (auto simp: filter_empty_conv)
        have m: "\<forall>fs' ms'. organize_entries lc b (entry # rest) fs ms = Inr (fs', ms') \<longrightarrow>
             (\<exists>newm. ms' = ms @ newm \<and>
                filter is_move (n1 @ [Move entry target None] @ n3) = map fresh_move newm)"
        proof (intro allI impI)
          fix fs' ms' assume "organize_entries lc b (entry # rest) fs ms = Inr (fs', ms')"
          with step have "organize_entries lc b rest fs2 (ms @ [(entry, target)]) = Inr (fs', ms')"
            by simp
          with n3(3) obtain newm where "ms' = (ms @ [(entry, target)]) @ newm"
            "filter is_move n3 = map fresh_move newm" by blast
          then show "\<exists>newm. ms' = ms @ newm \<and>
                filter is_move (n1 @ [Move entry target None] @ n3) = map fresh_move newm"
            using n1(2) by (intro exI[of _ "(entry, target) # newm"]) (simp add: fresh_move_def)
        qed
        from e c m show ?thesis by blast
      qed
    qed
  qed
qed

lemma relocate_items_log:
  "\<exists>new. extends fs (final_fs (relocate_items d items fs ms)) new \<and>
     (\<forall>s t pre. Move s t pre \<in> set new \<longrightarrow> pre = None) \<and>
     (\<forall>fs' ms'. relocate_items d items fs ms = Inr (fs', ms') \<longrightarrow>
        (\<exists>newm. ms' = ms @ newm \<and> filter is_move new = map fresh_move newm))"
proof (induction items arbitrary: fs ms)
  case Nil
  show ?case by (auto intro!: exI[of _ "[]"] simp: final_fs_def extends_def)
next
  case (Cons item rest)
  define target where "target =
    (if is_dir fs item then ensure_unique_dir fs (d @ [path_name item])
     else ensure_unique_path fs (d @ [path_name item]))"
  have fr: "\<not> path_exists fs target"
    unfolding target_def by (simp add: ensure_unique_path_fresh ensure_unique_dir_fresh)
  show ?case
  proof (cases "move fs item target")
    case (Inl e)
    then have "relocate_items d (item # rest) fs ms = Inl (e, fs)"
      by (simp add: Let_def target_def split: if_splits)
    then show ?thesis
      by (auto intro!: exI[of _ "[]"] simp: final_fs_def extends_def)
  next
    case (Inr fs2)
    from move_fresh_extends[OF Inr fr] have n2: "extends fs fs2 [Move item target None]" .
    from Inr have step: "relocate_items d (item # rest) fs ms =
         relocate_items d rest fs2 (ms @ [(item, target)])"
      by (simp add: Let_def target_def split: if_splits)
    from Cons[of fs2 "ms @ [(item, target)]"] obtain n3 where
      n3: "extends fs2 (final_fs (relocate_items d rest fs2 (ms @ [(item, target)]))) n3"
      "\<forall>s t pre. Move s t pre \<in> set n3 \<longrightarrow> pre = None"
      "\<forall>fs' ms'. relocate_items d rest fs2 (ms @ [(item, target)]) = Inr (fs', ms') \<longrightarrow>
         (\<exists>newm. ms' = (ms @ [(item, target)]) @ newm \<and> filter is_move n3 = map fresh_move newm)"
      by blast
    have e: "extends fs (final_fs (relocate_items d (item # rest) fs ms)) ([Move item target None] @ n3)"
      unfolding step using extends_trans[OF n2 n3(1)] by simp
    have c: "\<forall>s t pre. Move s t pre \<in> set ([Move item target None] @ n3) \<longrightarrow> pre = None"
      using n3(2) by auto
    have m: "\<forall>fs' ms'. relocate_items d (item # rest) fs ms = Inr (fs', ms') \<longrightarrow>
         (\<exists>newm. ms' = ms @ newm \<and>
            filter is_move ([Move item target None] @ n3) = map fresh_move newm)"
    proof (intro allI impI)
      fix fs' ms' assume "relocate_items d (item # rest) fs ms = Inr (fs', ms')"
      with step have "relocate_items d rest fs2 (ms @ [(item, target)]) = Inr (fs', ms')" by simp
      with n3(3) obtain newm where "ms' = (ms @ [(item, target)]) @ newm"
        "filter is_move n3 = map fresh_move newm" by blast
      then show "\<exists>newm. ms' = ms @ newm \<and>
            filter is_move ([Move item target None] @ n3) = map fresh_move newm"
        by (intro exI[of _ "(item, target) # newm"]) (simp add: fresh_move_def)
    qed
    from e c m show ?thesis by blast
  qed
qed

lemma relocate_each_log:
  "\<exists>new. extends fs (final_fs (relocate_each b lm fs ms)) new \<and>
     (\<forall>s t pre. Move s t pre \<in> set new \<longrightarrow> pre = None) \<and>
     (\<forall>fs' ms'. relocate_each b lm fs ms = Inr (fs', ms') \<longrightarrow>
        (\<exists>newm. ms' = ms @ newm \<and> filter is_move new = map fresh_move newm))"
proof (induction lm arbitrary: fs ms)
  case Nil
  show ?case by (auto intro!: exI[of _ "[]"] simp: final_fs_def extends_def)
next
  case (Cons a rest)
  obtain legacy_name dest_rel where a: "a = (legacy_name, dest_rel)" by (cases a)
  define src_dir where "src_dir = b @ Path legacy_name"
  define dest_dir where "dest_dir = b @ Path dest_rel"
  show ?case
  proof (cases "\<not> path_exists fs src_dir \<or> \<not> is_dir fs src_dir")
    case True
    then have "relocate_each b (a # rest) fs ms = relocate_each b rest fs ms"
      by (auto simp: a src_dir_def Let_def)
    with Cons[of fs ms] show ?thesis by simp
  next
    case False
    show ?thesis
    proof (cases "mkdir_parents fs dest_dir")
      case (Inl e)
      with False have "relocate_each b (a # rest) fs ms = Inl (e, fs)"
        by (auto simp: a src_dir_def dest_dir_def Let_def)
      then show ?thesis by (auto intro!: exI[of _ "[]"] simp: final_fs_def extends_def)
    next
      case (Inr fs1)
      from mkdir_parents_extends[OF Inr] obtain n1 where
        n1: "extends fs fs1 n1" "filter is_move n1 = []" by blast
      show ?thesis
      proof (cases "iterdir fs1 src_dir")
        case (Inl e)
        with False Inr have "relocate_each b (a # rest) fs ms = Inl (e, fs1)"
          by (auto simp: a src_dir_def dest_dir_def Let_def)
        with n1 show ?thesis
          by (auto intro!: exI[of _ n1] simp: final_fs_def filter_empty_conv)
      next
        case items: (Inr items)
        from relocate_items_log[of fs1 dest_dir items ms] obtain n2 where
          n2: "extends fs1 (final_fs (relocate_items dest_dir items fs1 ms)) n2"
          "\<forall>s t pre. Move s t pre \<in> set n2 \<longrightarrow> pre = None"
          "\<forall>fs' ms'. relocate_items dest_dir items fs1 ms = Inr (fs', ms') \<longrightarrow>
            (\<exists>newm. ms' = ms @ newm \<and> filter is_move n2 = map fresh_move newm)"
          by blast
        show ?thesis
        proof (cases "relocate_items dest_dir items fs1 ms")
          case (Inl x)
          with False Inr items have "relocate_each b (a # rest) fs ms = Inl x"
            by (auto simp: a src_dir_def dest_dir_def Let_def)
          with n1 n2 Inl extends_trans[OF n1(1) n2(1)] no_moves[OF n1(2)] show ?thesis
            by (intro exI[of _ "n1 @ n2"]) auto
        next
          case ok: (Inr res)
          obtain fs2 ms2 where res: "res = (fs2, ms2)" by (cases res)
          define fs3 where "fs3 = (case rmdir fs2 src_dir of Inl e \<Rightarrow> fs2 | Inr fs' \<Rightarrow> fs')"
          from rmdir_extends[of fs2 src_dir] obtain n3 where
            n3: "extends fs2 fs3 n3" "filter is_move n3 = []" unfolding fs3_def by blast
          from False Inr items ok res have step:
            "relocate_each b (a # rest) fs ms = relocate_each b rest fs3 ms2"
            by (auto simp: a src_dir_def dest_dir_def Let_def fs3_def)
          from n2(1) ok res have n2': "extends fs1 fs2 n2" by (simp add: final_fs_def)
          from n2(3) ok res obtain m2 where m2: "ms2 = ms @ m2" "filter is_move n2 = map fresh_move m2"
            by auto
          from Cons[of fs3 ms2] obtain n4 where
            n4: "extends fs3 (final_fs (relocate_each b rest fs3 ms2)) n4"
            "\<forall>s t pre. Move s t pre \<in> set n4 \<longrightarrow> pre = None"
            "\<forall>fs' ms'. relocate_each b rest fs3 ms2 = Inr (fs', ms') \<longrightarrow>
               (\<exists>newm. ms' = ms2 @ newm \<and> filter is_move n4 = map fresh_move newm)"
            by blast
          have e: "extends fs (final_fs (relocate_each b (a # rest) fs ms)) (n1 @ n2 @ n3 @ n4)"
            unfolding step
            using extends_trans[OF n1(1) extends_trans[OF n2' extends_trans[OF n3(1) n4(1)]]] by simp
          have c: "\<forall>s t pre. Move s t pre \<in> set (n1 @ n2 @ n3 @ n4) \<longrightarrow> pre = None"
            using n1(2) n2(2) n3(2) n4(2) by (auto simp: filter_empty_conv)
          have m: "\<forall>fs' ms'. relocate_each b (a # rest) fs ms = Inr (fs', ms') \<longrightarrow>
             (\<exists>newm. ms' = ms @ newm \<and> filter is_move (n1 @ n2 @ n3 @ n4) = map fresh_move newm)"
          proof (intro allI impI)
            fix fs' ms' assume "relocate_each b (a # rest) fs ms = Inr (fs', ms')"
            with step have "relocate_each b rest fs3 ms2 = Inr (fs', ms')" by simp
            with n4(3) obtain m4 where "ms' = ms2 @ m4" "filter is_move n4 = map fresh_move m4"
              by blast
            then show "\<exists>newm. ms' = ms @ newm \<and>
                filter is_move (n1 @ n2 @ n3 @ n4) = map fresh_move newm"
              using n1(2) n3(2) m2 by (intro exI[of _ "m2 @ m4"]) simp
          qed
          from e c m show ?thesis by blast
        qed
      qed
    qed
  qed
qed

lemma organize_folder_log:
  "\<exists>new. extends fs (final_fs (organize_folder lc b fs)) new \<and>
     (\<forall>s t pre. Move s t pre \<in> set new \<longrightarrow> pre = None) \<and>
     (\<forall>fs' ms'. organize_folder lc b fs = Inr (fs', ms') \<longrightarrow> filter is_move new = map fresh_move ms')"
proof (cases "iterdir fs b")
  case (Inl e)
  then show ?thesis
    by (auto intro!: exI[of _ "[]"] simp: organize_folder_def final_fs_def extends_def)
next
  case (Inr entries)
  from organize_entries_log[of fs lc b entries "[]"] obtain n1 where
    n1: "extends fs (final_fs (organize_entries lc b entries fs [])) n1"
    "\<forall>s d pre. Move s d pre \<in> set n1 \<longrightarrow> pre = None"
    "\<forall>fs' ms'. organize_entries lc b entries fs [] = Inr (fs', ms') \<longrightarrow>
        (\<exists>newm. ms' = [] @ newm \<and> filter is_move n1 = map fresh_move newm)"
    by blast
  show ?thesis
  proof (cases "organize_entries lc b entries fs []")
    case (Inl x)
    with Inr have "organize_folder lc b fs = Inl x" by (simp add: organize_folder_def)
    with n1 Inl show ?thesis by (auto intro!: exI[of _ n1])
  next
    case ok: (Inr res)
    obtain fs1 ms1 where res: "res = (fs1, ms1)" by (cases res)
    from Inr ok res have step: "organize_folder lc b fs = relocate_each b LEGACY_FOLDER_REMAP fs1 ms1"
      by (simp add: organize_folder_def relocate_legacy_folders_def)
    from n1 ok res have n1': "extends fs fs1 n1" "filter is_move n1 = map fresh_move ms1"
      by (auto simp: final_fs_def)
    from relocate_each_log[of fs1 b LEGACY_FOLDER_REMAP ms1] obtain n2 where
      n2: "extends fs1 (final_fs (relocate_each b LEGACY_FOLDER_REMAP fs1 ms1)) n2"
      "\<forall>s t pre. Move s t pre \<in> set n2 \<longrightarrow> pre = None"
      "\<forall>fs' ms'. relocate_each b LEGACY_FOLDER_REMAP fs1 ms1 = Inr (fs', ms') \<longrightarrow>
         (\<exists>newm. ms' = ms1 @ newm \<and> filter is_move n2 = map fresh_move newm)"
      by blast
    show ?thesis
      unfolding step using extends_trans[OF n1'(1) n2(1)] n1(2) n2(2) n2(3) n1'(2)
      by (intro exI[of _ "n1 @ n2"]) auto
  qed
qed

lemma performed_extends: "extends fs (final_fs r) new \<Longrightarrow> performed fs r = new"
  by (simp add: performed_def extends_def)

section \<open>No move overwrites\<close>

text \<open>
  Claim C3. Every move that \<open>organize_folder\<close> performs, in the pass over the top level
  and in the legacy migration, whether the run returns or raises, targets a path at which
  nothing exists at that moment; on return the moves performed are those of the move
  list, in order. In the scenario where the base folder holds \<open>report.pdf\<close> and
  \<open>Documents/PDF/report.pdf\<close> exists, the moved file becomes
  \<open>Documents/PDF/report (1).pdf\<close> and the earlier file keeps its content.
\<close>

theorem moves_never_overwrite:
  "(\<forall>s t pre. Move s t pre \<in> set (performed fs (organize_folder lc base fs)) \<longrightarrow> pre = None) \<and>
   (\<forall>fs' moves. organize_folder lc base fs = Inr (fs', moves) \<longrightarrow>
      filter is_move (performed fs (organize_folder lc base fs)) = map fresh_move moves) \<and>
   organize_folder ascii_lower [] report_fs =
     Inr (report_done, [([''report.pdf''], [''Documents'', ''PDF'', ''report (1).pdf''])])"
proof -
  from organize_folder_log[of fs lc base] obtain new where
    n: "extends fs (final_fs (organize_folder lc base fs)) new"
    "\<forall>s t pre. Move s t pre \<in> set new \<longrightarrow> pre = None"
    "\<forall>fs' ms'. organize_folder lc base fs = Inr (fs', ms') \<longrightarrow> filter is_move new = map fresh_move ms'"
    by blast
  have "organize_folder ascii_lower [] report_fs =
     Inr (report_done, [([''report.pdf''], [''Documents'', ''PDF'', ''report (1).pdf''])])"
    by code_simp
  with n show ?thesis unfolding performed_extends[OF n(1)] by blast
qed

theorem moves_never_overwrite_witness:
  "organize_folder ascii_lower [] report_fs =
     Inr (report_done, [([''report.pdf''], [''Documents'', ''PDF'', ''report (1).pdf''])]) \<and>
   filter is_move (performed report_fs (organize_folder ascii_lower [] report_fs)) =
     [Move [''report.pdf''] [''Documents'', ''PDF'', ''report (1).pdf''] None]"
  using moves_never_overwrite[of report_fs ascii_lower "[]"] by (simp add: fresh_move_def)

section \<open>One iteration of each loop\<close>

lemma organize_entries_Cons_Inr:
  assumes "organize_entries lc b (entry # rest) fs ms = Inr (fs', ms')"
  obtains (skip) "is_dir fs entry" "organize_entries lc b rest fs ms = Inr (fs', ms')"
  | (moved) fs1 fs2 target where "\<not> is_dir fs entry"
      "mkdir_parents fs (dest_of lc b entry) = Inr fs1"
      "target = ensure_unique_path fs1 (dest_of lc b entry @ [path_name entry])"
      "\<not> path_exists fs1 target"
      "move fs1 entry target = Inr fs2"
      "organize_entries lc b rest fs2 (ms @ [(entry, target)]) = Inr (fs', ms')"
proof (cases "is_dir fs entry")
  case True
  with assms show ?thesis by (auto intro: skip)
next
  case False
  with assms obtain fs1 where m: "mkdir_parents fs (dest_of lc b entry) = Inr fs1"
    by (auto simp: Let_def dest_of_def split: sum.splits)
  define target where "target = ensure_unique_path fs1 (dest_of lc b entry @ [path_name entry])"
  from assms False m obtain fs2 where v: "move fs1 entry target = Inr fs2"
    by (auto simp: Let_def dest_of_def target_def split: sum.splits)
  from assms False m v have "organize_entries lc b rest fs2 (ms @ [(entry, target)]) = Inr (fs', ms')"
    by (auto simp: Let_def dest_of_def target_def split: sum.splits)
  with False m v show ?thesis
    by (intro moved[of fs1 target fs2]) (simp_all add: target_def ensure_unique_path_fresh)
qed

lemma relocate_items_Cons_Inr:
  assumes "relocate_items d (item # rest) fs ms = Inr (fs', ms')"
  obtains fs2 target where
      "target = (if is_dir fs item then ensure_unique_dir fs (d @ [path_name item])
                 else ensure_unique_path fs (d @ [path_name item]))"
      "\<not> path_exists fs target"
      "move fs item target = Inr fs2"
      "relocate_items d rest fs2 (ms @ [(item, target)]) = Inr (fs', ms')"
proof -
  define target where "target = (if is_dir fs item then ensure_unique_dir fs (d @ [path_name item])
                 else ensure_unique_path fs (d @ [path_name item]))"
  from assms obtain fs2 where v: "move fs item target = Inr fs2"
    by (auto simp: Let_def target_def split: sum.splits if_splits)
  from assms v have "relocate_items d rest fs2 (ms @ [(item, target)]) = Inr (fs', ms')"
    by (auto simp: Let_def target_def split: sum.splits if_splits)
  with v show ?thesis
    by (intro that[of target fs2])
       (simp_all add: target_def ensure_unique_path_fresh ensure_unique_dir_fresh)
qed

lemma is_dir_exists: "is_dir fs p \<Longrightarrow> path_exists fs p"
  by (simp add: is_dir_kind path_exists_kind)

lemma relocate_each_Cons_Inr:
  assumes "relocate_each b ((legacy_name, dest_rel) # rest) fs ms = Inr (fs', ms')"
  obtains (skip) "\<not> is_dir fs (b @ Path legacy_name)" "relocate_each b rest fs ms = Inr (fs', ms')"
  | (fold) fs1 items fs2 ms2 fs3 where "is_dir fs (b @ Path legacy_name)"
      "mkdir_parents fs (b @ Path dest_rel) = Inr fs1"
      "iterdir fs1 (b @ Path legacy_name) = Inr items"
      "relocate_items (b @ Path dest_rel) items fs1 ms = Inr (fs2, ms2)"
      "fs3 = (case rmdir fs2 (b @ Path legacy_name) of Inl e \<Rightarrow> fs2 | Inr x \<Rightarrow> x)"
      "relocate_each b rest fs3 ms2 = Inr (fs', ms')"
proof (cases "is_dir fs (b @ Path legacy_name)")
  case False
  with assms show ?thesis by (auto simp: Let_def intro: skip)
next
  case True
  then have ex: "path_exists fs (b @ Path legacy_name)" by (rule is_dir_exists)
  with assms True obtain fs1 where m: "mkdir_parents fs (b @ Path dest_rel) = Inr fs1"
    by (auto simp: Let_def split: sum.splits)
  with assms True ex obtain items where i: "iterdir fs1 (b @ Path legacy_name) = Inr items"
    by (auto simp: Let_def split: sum.splits)
  with assms True ex m obtain fs2 ms2 where
    r: "relocate_items (b @ Path dest_rel) items fs1 ms = Inr (fs2, ms2)"
    by (auto simp: Let_def split: sum.splits prod.splits)
  define fs3 where "fs3 = (case rmdir fs2 (b @ Path legacy_name) of Inl e \<Rightarrow> fs2 | Inr x \<Rightarrow> x)"
  from assms True ex m i r have "relocate_each b rest fs3 ms2 = Inr (fs', ms')"
    by (auto simp: Let_def fs3_def split: sum.splits)
  with True m i r show ?thesis by (intro fold[of fs1 items fs2 ms2 fs3]) (simp_all add: fs3_def)
qed

section \<open>Listings and destinations\<close>

lemma iterdir_Inr:
  assumes "iterdir fs p = Inr xs"
  shows "is_dir fs p" "\<And>x. x \<in> set xs \<longleftrightarrow> (\<exists>n. x = p @ [n] \<and> path_exists fs x)"
proof -
  from assms obtain es where es: "resolve (tree fs) p = Inr (Dir es)" "xs = map (\<lambda>e. p @ [fst e]) es"
    by (auto simp: iterdir_def split: sum.splits node.splits)
  then show "is_dir fs p" by (simp add: is_dir_def)
  have "path_exists fs (p @ [n]) \<longleftrightarrow> map_of es n \<noteq> None" for n
    using es(1) by (auto simp: path_exists_def resolve_append split: option.splits)
  then have ex: "path_exists fs (p @ [n]) \<longleftrightarrow> n \<in> fst ` set es" for n
    by (simp add: map_of_eq_None_iff)
  show "x \<in> set xs \<longleftrightarrow> (\<exists>n. x = p @ [n] \<and> path_exists fs x)" for x
    using es(2) ex by auto
qed

lemma Path_constants [simp]:
  "Path ''Other'' = [''Other'']"
  "Path ''Documents/Excel'' = [''Documents'', ''Excel'']"
  "Path ''Documents/Word'' = [''Documents'', ''Word'']"
  "Path ''Documents/PDF'' = [''Documents'', ''PDF'']"
  "Path ''Documents/Text'' = [''Documents'', ''Text'']"
  "Path ''Media/Images'' = [''Media'', ''Images'']"
  "Path ''Media/Videos'' = [''Media'', ''Videos'']"
  "Path ''Excel'' = [''Excel'']" "Path ''Word'' = [''Word'']"
  "Path ''PDF'' = [''PDF'']" "Path ''Text'' = [''Text'']"
  by (simp_all add: Path_def)

lemma first_category_cases:
  "first_category CATEGORY_MAP ext = Some d \<Longrightarrow> d \<in> set dest_roots"
  unfolding CATEGORY_MAP_def dest_roots_def by (simp split: if_splits)

lemma dest_of_cases: "\<exists>r. dest_of lc b e = b @ r \<and> r \<in> set dest_roots"
proof (cases "resolve_destination lc e")
  case None
  then show ?thesis by (simp add: dest_of_def OTHER_FOLDER_def dest_roots_def)
next
  case (Some d)
  then have "first_category CATEGORY_MAP (lc (path_suffix e)) = Some d"
    by (simp add: resolve_destination_def)
  from first_category_cases[OF this] Some show ?thesis by (auto simp: dest_of_def)
qed

lemma dest_roots_nonempty: "r \<in> set dest_roots \<Longrightarrow> r \<noteq> []"
  by (auto simp: dest_roots_def)

lemma dest_of_length: "length b < length (dest_of lc b e)"
  using dest_of_cases[of lc b e] dest_roots_nonempty by auto

lemma mkdir_parents_prefix_nofile:
  "mkdir_parents fs p = Inr fs' \<Longrightarrow> prefix q p \<Longrightarrow> kind_at fs q \<noteq> IsFile c"
proof (induction fs p arbitrary: fs' rule: mkdir_parents.induct)
  case (1 fs p)
  show ?case
  proof (cases "os_mkdir fs p")
    case (Inr fs1)
    from os_mkdir_Inr[OF Inr] obtain t where t: "set_entry (tree fs) p (Some (Dir [])) = Some t"
      and ab: "kind_at fs p = Absent" by blast
    show ?thesis
    proof (cases "q = p")
      case True
      with ab show ?thesis by simp
    next
      case False
      with 1(3) have "strict_prefix q p" by (simp add: strict_prefix_def)
      from resolve_set_entry_above[OF t this] show ?thesis by (auto simp: kind_at_def)
    qed
  next
    case (Inl e)
    show ?thesis
    proof (cases "e = ENOENT")
      case True
      with Inl 1(2) have pne: "p \<noteq> []" by (subst (asm) mkdir_parents.simps) (auto split: if_splits)
      with Inl True 1(2) obtain fs1 where m1: "mkdir_parents fs (butlast p) = Inr fs1"
        by (subst (asm) mkdir_parents.simps) (auto split: sum.splits)
      show ?thesis
      proof (cases "q = p")
        case qp: True
        from Inl True have "kind_at fs p = Absent"
          by (auto simp: os_mkdir_def kind_at_def split: sum.splits node.splits option.splits)
        with qp show ?thesis by simp
      next
        case False
        with 1(3) pne have "prefix q (butlast p)"
          by (metis append_butlast_last_id prefix_snoc)
        from 1(1)[OF Inl True pne m1 this] show ?thesis .
      qed
    next
      case False
      with Inl 1(2) have d: "is_dir fs p" by (subst (asm) mkdir_parents.simps) (auto split: if_splits)
      show ?thesis
      proof (cases "q = p")
        case True
        with d show ?thesis by (simp add: is_dir_kind)
      next
        case qp: False
        with 1(3) have sp: "strict_prefix q p" by (simp add: strict_prefix_def)
        show ?thesis
        proof
          assume "kind_at fs q = IsFile c"
          with kind_below_nondir[OF _ sp, of "tree fs"] d show False
            by (simp add: kind_at_def is_dir_kind)
        qed
      qed
    qed
  qed
qed

lemma mkdir_parents_file:
  assumes "mkdir_parents fs p = Inr fs'"
  shows "kind_at fs' q = IsFile c \<longleftrightarrow> kind_at fs q = IsFile c"
  using mkdir_parents_kind[OF assms, of q] mkdir_parents_prefix_nofile[OF assms, of q c]
  by auto

lemma kind_above_dir:
  "kind_at fs q \<noteq> Absent \<Longrightarrow> strict_prefix h q \<Longrightarrow> kind_at fs h = IsDir"
  using kind_below_nondir[of "tree fs" h q] by (auto simp: kind_at_def)

lemma fresh_not_prefix:
  "\<not> path_exists fs t \<Longrightarrow> kind_at fs q \<noteq> Absent \<Longrightarrow> \<not> prefix t q"
  using kind_prefix_absent[of "tree fs" t q] by (auto simp: kind_at_def path_exists_kind)

section \<open>The move list\<close>

lemma organize_entries_records:
  "organize_entries lc b es fs ms = Inr (fs', ms') \<Longrightarrow>
   \<exists>new. ms' = ms @ new \<and>
     (\<forall>(s, t)\<in>set new. s \<in> set es \<and> t \<noteq> [] \<and> butlast t = dest_of lc b s)"
proof (induction es arbitrary: fs ms)
  case Nil
  then show ?case by simp
next
  case (Cons entry rest)
  from Cons.prems show ?case
  proof (cases rule: organize_entries_Cons_Inr)
    case skip
    from Cons.IH[OF skip(2)] show ?thesis by auto
  next
    case (moved fs1 fs2 target)
    from Cons.IH[OF moved(6)] obtain new where
      new: "ms' = (ms @ [(entry, target)]) @ new"
      "\<forall>(s, t)\<in>set new. s \<in> set rest \<and> t \<noteq> [] \<and> butlast t = dest_of lc b s" by blast
    have "target \<noteq> [] \<and> butlast target = dest_of lc b entry"
      using ensure_unique_path_parent[of "dest_of lc b entry @ [path_name entry]" fs1] moved(3) by simp
    with new show ?thesis by (intro exI[of _ "(entry, target) # new"]) auto
  qed
qed

lemma relocate_items_records:
  "relocate_items d items fs ms = Inr (fs', ms') \<Longrightarrow>
   \<exists>new. ms' = ms @ new \<and> map fst new = items \<and> (\<forall>t\<in>snd ` set new. t \<noteq> [] \<and> butlast t = d)"
proof (induction items arbitrary: fs ms)
  case Nil
  then show ?case by simp
next
  case (Cons item rest)
  from Cons.prems show ?case
  proof (cases rule: relocate_items_Cons_Inr)
    case (1 fs2 target)
    from Cons.IH[OF 1(4)] obtain new where
      new: "ms' = (ms @ [(item, target)]) @ new" "map fst new = rest"
      "\<forall>t\<in>snd ` set new. t \<noteq> [] \<and> butlast t = d" by blast
    have "target \<noteq> [] \<and> butlast target = d"
      using ensure_unique_path_parent[of "d @ [path_name item]" fs]
        ensure_unique_dir_parent[of "d @ [path_name item]" fs] 1(1) by (simp split: if_splits)
    with new show ?thesis by (intro exI[of _ "(item, target) # new"]) auto
  qed
qed

lemma relocate_each_records:
  "relocate_each b lm fs ms = Inr (fs', ms') \<Longrightarrow>
   \<exists>new. ms' = ms @ new \<and>
     (\<forall>(s, t)\<in>set new. \<exists>(l, d)\<in>set lm. \<exists>x.
         s = b @ Path l @ [x] \<and> t \<noteq> [] \<and> butlast t = b @ Path d)"
proof (induction lm arbitrary: fs ms)
  case Nil
  then show ?case by simp
next
  case (Cons a rest)
  obtain legacy_name dest_rel where a: "a = (legacy_name, dest_rel)" by (cases a)
  from Cons.prems[unfolded a] show ?case
  proof (cases rule: relocate_each_Cons_Inr)
    case skip
    from Cons.IH[OF skip(2)] show ?thesis by (auto simp: a)
  next
    case (fold fs1 items fs2 ms2 fs3)
    from relocate_items_records[OF fold(4)] obtain n1 where
      n1: "ms2 = ms @ n1" "map fst n1 = items"
      "\<forall>t\<in>snd ` set n1. t \<noteq> [] \<and> butlast t = b @ Path dest_rel" by blast
    from Cons.IH[OF fold(6)] obtain n2 where
      n2: "ms' = ms2 @ n2"
      "\<forall>(s, t)\<in>set n2. \<exists>(l, d)\<in>set rest. \<exists>x.
         s = b @ Path l @ [x] \<and> t \<noteq> [] \<and> butlast t = b @ Path d" by blast
    have "\<forall>(s, t)\<in>set n1. \<exists>x. s = b @ Path legacy_name @ [x] \<and> t \<noteq> [] \<and> butlast t = b @ Path dest_rel"
    proof (clarify)
      fix s t assume st: "(s, t) \<in> set n1"
      then have "s \<in> set items" using n1(2) by force
      with iterdir_Inr(2)[OF fold(3)] obtain x where "s = (b @ Path legacy_name) @ [x]" by blast
      moreover from st n1(3) have "t \<noteq> [] \<and> butlast t = b @ Path dest_rel" by force
      ultimately show "\<exists>x. s = b @ Path legacy_name @ [x] \<and> t \<noteq> [] \<and> butlast t = b @ Path dest_rel"
        by simp
    qed
    with n1(1) n2 show ?thesis
      by (intro exI[of _ "n1 @ n2"]) (auto simp: a; blast)
  qed
qed

section \<open>Files stay where they are or where they were moved\<close>


lemma nondir_not_prefix:
  assumes "\<not> is_dir fs h" "kind_at fs q \<noteq> Absent" "h \<noteq> q"
  shows "\<not> prefix h q"
proof
  assume "prefix h q"
  with assms(3) have "strict_prefix h q" by (simp add: strict_prefix_def)
  from kind_above_dir[OF assms(2) this] assms(1) show False by (simp add: is_dir_kind)
qed



lemma rmdir_try_kind:
  "q \<noteq> p \<Longrightarrow> kind_at (case rmdir fs p of Inl e \<Rightarrow> fs | Inr x \<Rightarrow> x) q = kind_at fs q"
  using rmdir_kind[of fs p _ q] by (auto split: sum.splits)



section \<open>Classification and routing\<close>


lemma path_suffix_snoc [simp]: "path_suffix (b @ [name]) = name_suffix name"
  by (simp add: path_suffix_def path_name_def)



lemma kind_file_resolve: "kind_at fs q = IsFile c \<longleftrightarrow> resolve (tree fs) q = Inr (File c)"
  by (auto simp: kind_at_def kind_of_def split: sum.splits node.splits)

lemma organize_folder_Inr:
  assumes "organize_folder lc b fs = Inr (fs', ms')"
  obtains entries fs1 ms1 where "iterdir fs b = Inr entries"
    "organize_entries lc b entries fs [] = Inr (fs1, ms1)"
    "relocate_each b LEGACY_FOLDER_REMAP fs1 ms1 = Inr (fs', ms')"
  using assms
  by (auto simp: organize_folder_def relocate_legacy_folders_def split: sum.splits prod.splits)








section \<open>Directories that a run leaves alone\<close>

lemma is_dir_resolve: "is_dir fs q \<longleftrightarrow> (\<exists>es. resolve (tree fs) q = Inr (Dir es))"
  by (auto simp: is_dir_def split: sum.splits node.splits)

lemma path_exists_resolve: "path_exists fs q \<longleftrightarrow> (\<exists>n. resolve (tree fs) q = Inr n)"
  by (auto simp: path_exists_def split: sum.splits)

lemma organize_entries_skips_dir:
  "organize_entries lc b es fs ms = Inr (fs', ms') \<Longrightarrow> is_dir fs q \<Longrightarrow>
   is_dir fs' q \<and> q \<notin> fst ` set (drop (length ms) ms')"
proof (induction es arbitrary: fs ms)
  case Nil
  then show ?case by simp
next
  case (Cons entry rest)
  from Cons.prems(1) show ?case
  proof (cases rule: organize_entries_Cons_Inr)
    case skip
    from Cons.IH[OF skip(2) Cons.prems(2)] show ?thesis .
  next
    case (moved fs1 fs2 target)
    from Cons.prems(2) moved(1) have ne: "entry \<noteq> q" by auto
    from Cons.prems(2) have ex: "kind_at fs q \<noteq> Absent" by (simp add: is_dir_kind)
    have np: "\<not> prefix entry q" by (rule nondir_not_prefix[OF moved(1) ex ne])
    have k1: "kind_at fs1 q = IsDir"
      using mkdir_parents_kind[OF moved(2), of q] Cons.prems(2) by (simp add: is_dir_kind)
    then have "\<not> prefix target q" by (intro fresh_not_prefix[OF moved(4)]) simp
    with move_fresh_kind[OF moved(5,4), of q] np k1 have "is_dir fs2 q" by (simp add: is_dir_kind)
    from Cons.IH[OF moved(6) this] have
      r: "is_dir fs' q" "q \<notin> fst ` set (drop (length (ms @ [(entry, target)])) ms')" by auto
    from organize_entries_records[OF moved(6)] obtain new where
      "ms' = (ms @ [(entry, target)]) @ new" by blast
    with r ne show ?thesis by auto
  qed
qed

lemma prefix_snoc_cases: "prefix q (xs @ [x]) \<Longrightarrow> q = xs @ [x] \<or> prefix q xs"
  by (simp add: prefix_snoc)

lemma move_fresh_apart:
  assumes "move fs src dst = Inr fs'" "\<not> path_exists fs dst" "path_exists fs q"
    and "\<not> prefix src q" "\<not> prefix q src" "\<not> prefix q (butlast dst)" "dst \<noteq> []"
  shows "resolve (tree fs') q = resolve (tree fs) q"
proof (rule move_fresh_frame[OF assms(1,2,4,5)])
  from assms(3) show "\<not> prefix dst q"
    by (intro fresh_not_prefix[OF assms(2)]) (simp add: path_exists_kind)
  show "\<not> prefix q dst"
  proof
    assume "prefix q dst"
    with assms(7) have "prefix q (butlast dst @ [last dst])" by simp
    from prefix_snoc_cases[OF this] assms(2,3,6,7) show False by auto
  qed
qed

lemma organize_entries_frame:
  "organize_entries lc b es fs ms = Inr (fs', ms') \<Longrightarrow> is_dir fs q \<Longrightarrow>
   \<forall>e\<in>set es. \<not> strict_prefix q e \<Longrightarrow> \<forall>r\<in>set dest_roots. \<not> prefix q (b @ r) \<Longrightarrow>
   resolve (tree fs') q = resolve (tree fs) q"
proof (induction es arbitrary: fs ms)
  case Nil
  then show ?case by simp
next
  case (Cons entry rest)
  from Cons.prems(1) show ?case
  proof (cases rule: organize_entries_Cons_Inr)
    case skip
    from Cons.IH[OF skip(2) Cons.prems(2)] Cons.prems(3,4) show ?thesis by simp
  next
    case (moved fs1 fs2 target)
    from Cons.prems(2) moved(1) have ne: "entry \<noteq> q" by auto
    from Cons.prems(2) have ex: "kind_at fs q \<noteq> Absent" by (simp add: is_dir_kind)
    have np: "\<not> prefix entry q" by (rule nondir_not_prefix[OF moved(1) ex ne])
    from Cons.prems(3) ne have nq: "\<not> prefix q entry" by (auto simp: strict_prefix_def)
    from dest_of_cases[of lc b entry] Cons.prems(4) have nd: "\<not> prefix q (dest_of lc b entry)" by auto
    from ex have pe: "path_exists fs q" by (simp add: path_exists_kind)
    have r1: "resolve (tree fs1) q = resolve (tree fs) q"
      by (rule mkdir_parents_frame[OF moved(2) pe nd])
    with pe have pe1: "path_exists fs1 q" by (simp add: path_exists_def)
    have tg: "target \<noteq> []" "butlast target = dest_of lc b entry"
      using ensure_unique_path_parent[of "dest_of lc b entry @ [path_name entry]" fs1] moved(3)
      by simp_all
    have r2: "resolve (tree fs2) q = resolve (tree fs1) q"
      using move_fresh_apart[OF moved(5,4) pe1 np nq _ tg(1)] nd tg(2) by simp
    with r1 Cons.prems(2) have "is_dir fs2 q" by (simp add: is_dir_def)
    from Cons.IH[OF moved(6) this] Cons.prems(3,4) r1 r2 show ?thesis by simp
  qed
qed

lemma relocate_items_frame:
  "relocate_items d items fs ms = Inr (fs', ms') \<Longrightarrow> path_exists fs q \<Longrightarrow>
   \<forall>i\<in>set items. \<not> prefix i q \<and> \<not> prefix q i \<Longrightarrow> \<not> prefix q d \<Longrightarrow>
   resolve (tree fs') q = resolve (tree fs) q"
proof (induction items arbitrary: fs ms)
  case Nil
  then show ?case by simp
next
  case (Cons item rest)
  from Cons.prems(1) show ?case
  proof (cases rule: relocate_items_Cons_Inr)
    case (1 fs2 target)
    have tg: "target \<noteq> []" "butlast target = d"
      using ensure_unique_path_parent[of "d @ [path_name item]" fs]
        ensure_unique_dir_parent[of "d @ [path_name item]" fs] 1(1) by (simp_all split: if_splits)
    have r2: "resolve (tree fs2) q = resolve (tree fs) q"
      using move_fresh_apart[OF 1(3,2) Cons.prems(2) _ _ _ tg(1)] Cons.prems(3,4) tg(2) by simp
    with Cons.prems(2) have "path_exists fs2 q" by (simp add: path_exists_def)
    from Cons.IH[OF 1(4) this] Cons.prems(3,4) r2 show ?thesis by simp
  qed
qed

lemma rmdir_try_frame:
  "\<not> prefix p q \<Longrightarrow> \<not> prefix q p \<Longrightarrow>
   resolve (tree (case rmdir fs p of Inl e \<Rightarrow> fs | Inr x \<Rightarrow> x)) q = resolve (tree fs) q"
  using rmdir_frame[of fs p _ q] by (auto split: sum.splits)

lemma snoc_apart:
  assumes "\<not> prefix p q" "\<not> prefix q p"
  shows "\<not> prefix (p @ [x]) q" "\<not> prefix q (p @ [x])"
proof -
  show "\<not> prefix (p @ [x]) q" using assms(1) by (metis append_prefixD)
  show "\<not> prefix q (p @ [x])"
  proof
    assume "prefix q (p @ [x])"
    from prefix_snoc_cases[OF this] assms show False by auto
  qed
qed

lemma relocate_each_frame:
  "relocate_each b lm fs ms = Inr (fs', ms') \<Longrightarrow> path_exists fs q \<Longrightarrow>
   \<forall>(l, d)\<in>set lm. \<not> prefix (b @ Path l) q \<and> \<not> prefix q (b @ Path l) \<and> \<not> prefix q (b @ Path d) \<Longrightarrow>
   resolve (tree fs') q = resolve (tree fs) q"
proof (induction lm arbitrary: fs ms)
  case Nil
  then show ?case by simp
next
  case (Cons a rest)
  obtain legacy_name dest_rel where a: "a = (legacy_name, dest_rel)" by (cases a)
  from Cons.prems(3) have np: "\<not> prefix (b @ Path legacy_name) q" "\<not> prefix q (b @ Path legacy_name)"
    "\<not> prefix q (b @ Path dest_rel)"
    and rest: "\<forall>(l, d)\<in>set rest. \<not> prefix (b @ Path l) q \<and> \<not> prefix q (b @ Path l) \<and> \<not> prefix q (b @ Path d)"
    by (auto simp: a)
  from Cons.prems(1)[unfolded a] show ?case
  proof (cases rule: relocate_each_Cons_Inr)
    case skip
    from Cons.IH[OF skip(2) Cons.prems(2) rest] show ?thesis .
  next
    case (fold fs1 items fs2 ms2 fs3)
    have r1: "resolve (tree fs1) q = resolve (tree fs) q"
      by (rule mkdir_parents_frame[OF fold(2) Cons.prems(2) np(3)])
    with Cons.prems(2) have pe1: "path_exists fs1 q" by (simp add: path_exists_def)
    have "\<forall>i\<in>set items. \<not> prefix i q \<and> \<not> prefix q i"
    proof
      fix i assume "i \<in> set items"
      with iterdir_Inr(2)[OF fold(3)] obtain x where "i = (b @ Path legacy_name) @ [x]" by blast
      with snoc_apart[OF np(1,2), of x] show "\<not> prefix i q \<and> \<not> prefix q i" by simp
    qed
    from relocate_items_frame[OF fold(4) pe1 this np(3)]
    have r2: "resolve (tree fs2) q = resolve (tree fs1) q" .
    from rmdir_try_frame[OF np(1,2), of fs2] fold(5)
    have r3: "resolve (tree fs3) q = resolve (tree fs2) q" by simp
    with r1 r2 Cons.prems(2) have "path_exists fs3 q" by (simp add: path_exists_def)
    from Cons.IH[OF fold(6) this rest] r1 r2 r3 show ?thesis by simp
  qed
qed

lemma top_level_apart:
  assumes "r \<in> set dest_roots" "d \<notin> {''Documents'', ''Media'', ''Other''}"
  shows "\<not> prefix (b @ [d]) (b @ r)" "\<not> prefix (b @ [d]) ((b @ r) @ [x])"
  using assms by (auto simp: dest_roots_def)

lemma legacy_apart:
  assumes "(l, dd) \<in> set LEGACY_FOLDER_REMAP" "d \<notin> fst ` set LEGACY_FOLDER_REMAP"
    "d \<notin> {''Documents'', ''Media'', ''Other''}"
  shows "\<not> prefix (b @ Path l) (b @ [d])" "\<not> prefix (b @ [d]) (b @ Path l)"
    "\<not> prefix (b @ [d]) (b @ Path dd)" "\<not> prefix (b @ [d]) (b @ Path l @ [x])"
    "\<not> prefix (b @ [d]) ((b @ Path dd) @ [y])"
  using assms by (auto simp: LEGACY_FOLDER_REMAP_def)

lemma first_pass_skips:
  assumes it: "iterdir fs b = Inr entries"
    and p1: "organize_entries lc b entries fs [] = Inr (fs1, ms1)"
    and dir: "is_dir fs (b @ [d])"
  shows "is_dir fs1 (b @ [d])" "\<forall>(s, t)\<in>set ms1. \<not> prefix (b @ [d]) s"
    "d \<notin> {''Documents'', ''Media'', ''Other''} \<Longrightarrow>
       resolve (tree fs1) (b @ [d]) = resolve (tree fs) (b @ [d]) \<and>
       (\<forall>(s, t)\<in>set ms1. \<not> prefix (b @ [d]) t)"
proof -
  from organize_entries_skips_dir[OF p1 dir]
  have a: "is_dir fs1 (b @ [d])" "b @ [d] \<notin> fst ` set ms1" by simp_all
  from organize_entries_records[OF p1] have
    r1: "\<forall>(s, t)\<in>set ms1. s \<in> set entries \<and> t \<noteq> [] \<and> butlast t = dest_of lc b s" by auto
  show "is_dir fs1 (b @ [d])" by (rule a(1))
  show "\<forall>(s, t)\<in>set ms1. \<not> prefix (b @ [d]) s"
  proof (clarify)
    fix s t assume st: "(s, t) \<in> set ms1" and pr: "prefix (b @ [d]) s"
    with r1 have "s \<in> set entries" by auto
    with iterdir_Inr(2)[OF it] obtain n where "s = b @ [n]" by blast
    with pr have "s = b @ [d]" by simp
    with st a(2) show False by force
  qed
  assume nd: "d \<notin> {''Documents'', ''Media'', ''Other''}"
  have c1: "\<forall>e\<in>set entries. \<not> strict_prefix (b @ [d]) e"
    using iterdir_Inr(2)[OF it] by (auto simp: strict_prefix_def)
  have c2: "\<forall>r\<in>set dest_roots. \<not> prefix (b @ [d]) (b @ r)"
    using top_level_apart(1)[OF _ nd] by blast
  have "\<forall>(s, t)\<in>set ms1. \<not> prefix (b @ [d]) t"
  proof (clarify)
    fix s t assume st: "(s, t) \<in> set ms1" and pr: "prefix (b @ [d]) t"
    with r1 have t: "t \<noteq> []" "butlast t = dest_of lc b s" by auto
    from dest_of_cases[of lc b s] obtain r where r: "dest_of lc b s = b @ r" "r \<in> set dest_roots"
      by blast
    from t(1) obtain ys y where ty: "t = ys @ [y]" by (cases t rule: rev_cases) auto
    with t(2) r(1) have "t = (b @ r) @ [y]" by simp
    with top_level_apart(2)[OF r(2) nd, of b y] pr show False by simp
  qed
  with organize_entries_frame[OF p1 dir c1 c2]
  show "resolve (tree fs1) (b @ [d]) = resolve (tree fs) (b @ [d]) \<and>
       (\<forall>(s, t)\<in>set ms1. \<not> prefix (b @ [d]) t)" by simp
qed

lemma whole_run_skips:
  assumes run: "organize_folder lc b fs = Inr (fs', moves)"
    and dir: "is_dir fs (b @ [d])"
    and nl: "d \<notin> fst ` set LEGACY_FOLDER_REMAP"
    and nd: "d \<notin> {''Documents'', ''Media'', ''Other''}"
  shows "resolve (tree fs') (b @ [d]) = resolve (tree fs) (b @ [d])"
    "\<forall>(s, t)\<in>set moves. \<not> prefix (b @ [d]) s \<and> \<not> prefix (b @ [d]) t"
proof -
  from run obtain entries fs1 ms1 where it: "iterdir fs b = Inr entries"
    and p1: "organize_entries lc b entries fs [] = Inr (fs1, ms1)"
    and p2: "relocate_each b LEGACY_FOLDER_REMAP fs1 ms1 = Inr (fs', moves)"
    by (rule organize_folder_Inr)
  note f = first_pass_skips[OF it p1 dir]
  from f(3)[OF nd] have r1: "resolve (tree fs1) (b @ [d]) = resolve (tree fs) (b @ [d])"
    and m1: "\<forall>(s, t)\<in>set ms1. \<not> prefix (b @ [d]) t" by simp_all
  from f(1) have pe: "path_exists fs1 (b @ [d])" by (rule is_dir_exists)
  have c: "\<forall>(l, dd)\<in>set LEGACY_FOLDER_REMAP.
      \<not> prefix (b @ Path l) (b @ [d]) \<and> \<not> prefix (b @ [d]) (b @ Path l) \<and>
      \<not> prefix (b @ [d]) (b @ Path dd)"
    using legacy_apart(1,2,3)[OF _ nl nd] by blast
  from relocate_each_frame[OF p2 pe c] r1
  show "resolve (tree fs') (b @ [d]) = resolve (tree fs) (b @ [d])" by simp
  from relocate_each_records[OF p2] obtain new where
    new: "moves = ms1 @ new"
    "\<forall>(s, t)\<in>set new. \<exists>(l, dd)\<in>set LEGACY_FOLDER_REMAP. \<exists>x.
         s = b @ Path l @ [x] \<and> t \<noteq> [] \<and> butlast t = b @ Path dd" by blast
  have "\<forall>(s, t)\<in>set new. \<not> prefix (b @ [d]) s \<and> \<not> prefix (b @ [d]) t"
  proof (clarify)
    fix s t assume st: "(s, t) \<in> set new"
    with new(2) obtain l dd x where l: "(l, dd) \<in> set LEGACY_FOLDER_REMAP"
      "s = b @ Path l @ [x]" "t \<noteq> []" "butlast t = b @ Path dd" by fastforce
    from l(3) obtain ys y where ty: "t = ys @ [y]" by (cases t rule: rev_cases) auto
    with l(4) have "t = (b @ Path dd) @ [y]" by simp
    with legacy_apart(4,5)[OF l(1) nl nd, of b] l(2)
    show "\<not> prefix (b @ [d]) s \<and> \<not> prefix (b @ [d]) t" by simp
  qed
  with f(2) m1 new(1)
  show "\<forall>(s, t)\<in>set moves. \<not> prefix (b @ [d]) s \<and> \<not> prefix (b @ [d]) t" by auto
qed

text \<open>
  Claim C8, amended. In the pass over the listing of the base folder every immediate
  subdirectory is skipped: it is still a directory afterwards, no move of that pass has its
  source at or below it, and unless it is one of \<open>Documents\<close>, \<open>Media\<close>, \<open>Other\<close> it is
  unchanged and no move has its target at or below it. In a run that returns, a top-level
  directory whose name is neither a legacy name nor \<open>Documents\<close>, \<open>Media\<close> or \<open>Other\<close> is
  the same in the final state as before, and no entry of the move list has its source or its
  target at or below it.
\<close>

theorem subdirectories_skipped:
  "(\<forall>entries fs1 ms1.
      iterdir fs base = Inr entries \<longrightarrow>
      organize_entries lc base entries fs [] = Inr (fs1, ms1) \<longrightarrow>
      is_dir fs (base @ [d]) \<longrightarrow>
        is_dir fs1 (base @ [d]) \<and>
        (\<forall>(s, t)\<in>set ms1. \<not> prefix (base @ [d]) s) \<and>
        (d \<notin> {''Documents'', ''Media'', ''Other''} \<longrightarrow>
           resolve (tree fs1) (base @ [d]) = resolve (tree fs) (base @ [d]) \<and>
           (\<forall>(s, t)\<in>set ms1. \<not> prefix (base @ [d]) t))) \<and>
   (\<forall>fs' moves.
      organize_folder lc base fs = Inr (fs', moves) \<longrightarrow>
      is_dir fs (base @ [d]) \<longrightarrow>
      d \<notin> fst ` set LEGACY_FOLDER_REMAP \<longrightarrow>
      d \<notin> {''Documents'', ''Media'', ''Other''} \<longrightarrow>
        resolve (tree fs') (base @ [d]) = resolve (tree fs) (base @ [d]) \<and>
        (\<forall>(s, t)\<in>set moves. \<not> prefix (base @ [d]) s \<and> \<not> prefix (base @ [d]) t))"
  using first_pass_skips[of fs base _ lc _ _ d] whole_run_skips[of lc base fs _ _ d]
  by (intro conjI allI impI) blast+

theorem subdirectories_skipped_witness:
  "is_dir other_fs [''Projects''] \<and>
   ''Projects'' \<notin> fst ` set LEGACY_FOLDER_REMAP \<and>
   organize_folder ascii_lower [] other_fs = Inr (other_done, [([''notes.xyz''], [''Other'', ''notes.xyz''])]) \<and>
   resolve (tree other_done) [''Projects''] = resolve (tree other_fs) [''Projects''] \<and>
   resolve (tree other_done) [''Projects''] = Inr (Dir [(''todo.txt'', File ''t'')])"
proof -
  have a: "is_dir other_fs ([] @ [''Projects''])" by code_simp
  have b: "''Projects'' \<notin> fst ` set LEGACY_FOLDER_REMAP"
    by (simp add: LEGACY_FOLDER_REMAP_def)
  have c: "organize_folder ascii_lower [] other_fs =
      Inr (other_done, [([''notes.xyz''], [''Other'', ''notes.xyz''])])" by code_simp
  have d: "''Projects'' \<notin> {''Documents'', ''Media'', ''Other''}" by simp
  from subdirectories_skipped[of other_fs "[]" ascii_lower "''Projects''"] a b c d
  have e: "resolve (tree other_done) [''Projects''] = resolve (tree other_fs) [''Projects'']"
    by simp
  have f: "resolve (tree other_fs) [''Projects''] = Inr (Dir [(''todo.txt'', File ''t'')])"
    by code_simp
  from a b c e f show ?thesis by simp
qed

text \<open>
  The claim as stated fails for a top-level directory named \<open>Other\<close>, which is not a
  legacy name: the run moves a file into it and the move list names it.
\<close>

theorem subdirectories_skipped_counterexample:
  "is_dir other_fs [''Other''] \<and>
   ''Other'' \<notin> fst ` set LEGACY_FOLDER_REMAP \<and>
   organize_folder ascii_lower [] other_fs = Inr (other_done, [([''notes.xyz''], [''Other'', ''notes.xyz''])]) \<and>
   resolve (tree other_done) [''Other''] \<noteq> resolve (tree other_fs) [''Other''] \<and>
   prefix [''Other''] [''Other'', ''notes.xyz'']"
proof -
  have a: "is_dir other_fs [''Other'']" by code_simp
  have b: "''Other'' \<notin> fst ` set LEGACY_FOLDER_REMAP"
    by (simp add: LEGACY_FOLDER_REMAP_def)
  have c: "organize_folder ascii_lower [] other_fs =
      Inr (other_done, [([''notes.xyz''], [''Other'', ''notes.xyz''])])" by code_simp
  have d: "resolve (tree other_done) [''Other''] \<noteq> resolve (tree other_fs) [''Other'']"
    by (simp add: other_done_def other_fs_def)
  from a b c d show ?thesis by simp
qed

section \<open>Draining a legacy folder\<close>

lemma apart_snoc:
  assumes "\<not> prefix sd d" "\<not> prefix d sd"
  shows "\<not> prefix (sd @ [y]) (d @ [z])" "\<not> prefix (d @ [z]) (sd @ [y])"
    "\<not> prefix (sd @ [y]) d" "\<not> prefix sd (d @ [z])" "\<not> prefix (d @ [z]) sd"
proof -
  show a: "\<not> prefix (sd @ [y]) d" using assms(1) by (metis append_prefixD)
  show b: "\<not> prefix (d @ [z]) sd" using assms(2) by (metis append_prefixD)
  show "\<not> prefix (sd @ [y]) (d @ [z])"
  proof
    assume "prefix (sd @ [y]) (d @ [z])"
    from prefix_snoc_cases[OF this] a assms show False by auto
  qed
  show "\<not> prefix (d @ [z]) (sd @ [y])"
  proof
    assume "prefix (d @ [z]) (sd @ [y])"
    from prefix_snoc_cases[OF this] b assms show False by auto
  qed
  show "\<not> prefix sd (d @ [z])"
  proof
    assume "prefix sd (d @ [z])"
    from prefix_snoc_cases[OF this] assms show False by auto
  qed
qed

lemma target_under:
  assumes "target = (if is_dir fs item then ensure_unique_dir fs (d @ [path_name item])
                 else ensure_unique_path fs (d @ [path_name item]))"
  obtains z where "target = d @ [z]"
proof -
  have "target \<noteq> [] \<and> butlast target = d"
    using ensure_unique_path_parent[of "d @ [path_name item]" fs]
      ensure_unique_dir_parent[of "d @ [path_name item]" fs] assms by (simp split: if_splits)
  then have "target = d @ [last target]" by (metis append_butlast_last_id)
  then show ?thesis by (rule that)
qed

lemma relocate_items_moves_node:
  assumes "relocate_items d items fs ms = Inr (fs', ms')"
    and "i \<in> set items" "resolve (tree fs) i = Inr n"
    and "\<forall>j\<in>set items. \<exists>y. j = sd @ [y]" "\<not> prefix sd d" "\<not> prefix d sd"
  shows "\<exists>z. (i, d @ [z]) \<in> set (drop (length ms) ms') \<and> resolve (tree fs') (d @ [z]) = Inr n \<and>
           (\<exists>g. d @ [z] = collision_safe g n (d @ [path_name i]))"
  using assms(1,2,3,4)
proof (induction items arbitrary: fs ms)
  case Nil
  then show ?case by simp
next
  case (Cons item rest)
  from Cons.prems(1) show ?case
  proof (cases rule: relocate_items_Cons_Inr)
    case (1 fs2 target)
    from 1(1) obtain z where tz: "target = d @ [z]" by (rule target_under)
    from Cons.prems(4) obtain y where iy: "item = sd @ [y]" by auto
    from relocate_items_records[OF 1(4)] obtain new where
      new: "ms' = (ms @ [(item, target)]) @ new" by blast
    show ?thesis
    proof (cases "item = i")
      case True
      from move_fresh_target[OF 1(3,2)] True Cons.prems(3)
      have r2: "resolve (tree fs2) target = Inr n" by simp
      then have pe: "path_exists fs2 target" by (simp add: path_exists_def)
      have c: "\<forall>j\<in>set rest. \<not> prefix j target \<and> \<not> prefix target j"
      proof
        fix j assume "j \<in> set rest"
        with Cons.prems(4) obtain y' where "j = sd @ [y']" by auto
        with apart_snoc(1)[OF assms(5,6)] apart_snoc(2)[OF assms(5,6)] tz
        show "\<not> prefix j target \<and> \<not> prefix target j" by blast
      qed
      have "\<not> prefix target d" unfolding tz by simp
      from relocate_items_frame[OF 1(4) pe c this] r2
      have "resolve (tree fs') target = Inr n" by simp
      moreover have "target = collision_safe fs n (d @ [path_name i])"
        using 1(1) True Cons.prems(3)
        by (cases n) (simp_all add: collision_safe_def is_dir_def)
      ultimately show ?thesis using new True tz by (intro exI[of _ z]) auto
    next
      case False
      from Cons.prems(2) False have ir: "i \<in> set rest" by simp
      with Cons.prems(4) obtain x where ix: "i = sd @ [x]" by auto
      with iy False have "\<not> prefix item i" "\<not> prefix i item" by auto
      moreover have "path_exists fs i" using Cons.prems(3) by (simp add: path_exists_def)
      moreover have "\<not> prefix i (butlast target)" "target \<noteq> []"
        using apart_snoc(3)[OF assms(5,6)] ix tz by simp_all
      ultimately have "resolve (tree fs2) i = resolve (tree fs) i"
        using move_fresh_apart[OF 1(3,2)] by blast
      with Cons.prems(3) have "resolve (tree fs2) i = Inr n" by simp
      from Cons.IH[OF 1(4) ir this] Cons.prems(4) obtain z' where
        "(i, d @ [z']) \<in> set (drop (length (ms @ [(item, target)])) ms')"
        "resolve (tree fs') (d @ [z']) = Inr n"
        "\<exists>g. d @ [z'] = collision_safe g n (d @ [path_name i])" by auto
      with new show ?thesis by (intro exI[of _ z']) (auto dest: in_set_dropD)
    qed
  qed
qed

lemma relocate_items_kind_back:
  "relocate_items d items fs ms = Inr (fs', ms') \<Longrightarrow> kind_at fs' q \<noteq> Absent \<Longrightarrow> \<not> prefix d q \<Longrightarrow>
   kind_at fs' q = kind_at fs q \<and> (\<forall>i\<in>set items. \<not> prefix i q)"
proof (induction items arbitrary: fs ms)
  case Nil
  then show ?case by simp
next
  case (Cons item rest)
  from Cons.prems(1) show ?case
  proof (cases rule: relocate_items_Cons_Inr)
    case (1 fs2 target)
    from 1(1) obtain z where tz: "target = d @ [z]" by (rule target_under)
    from Cons.IH[OF 1(4) Cons.prems(2,3)]
    have ih: "kind_at fs' q = kind_at fs2 q" "\<forall>i\<in>set rest. \<not> prefix i q" by simp_all
    have "\<not> prefix target q" using Cons.prems(3) tz by (metis append_prefixD)
    with move_fresh_kind[OF 1(3,2), of q] ih(1) Cons.prems(2)
    have "\<not> prefix item q \<and> kind_at fs2 q = kind_at fs q" by (auto split: if_splits)
    with ih show ?thesis by simp
  qed
qed

lemma no_children_empty:
  assumes "is_dir fs p" "\<forall>x. \<not> path_exists fs (p @ [x])"
  shows "resolve (tree fs) p = Inr (Dir [])"
proof -
  from assms(1) obtain es where es: "resolve (tree fs) p = Inr (Dir es)"
    by (auto simp: is_dir_resolve)
  have "es = []"
  proof (cases es)
    case Nil
    then show ?thesis .
  next
    case (Cons a list)
    then have "map_of es (fst a) \<noteq> None" by (cases a) simp
    with es have "path_exists fs (p @ [fst a])"
      by (auto simp: path_exists_def resolve_append split: option.splits)
    with assms(2) show ?thesis by blast
  qed
  with es show ?thesis by simp
qed

lemma relocate_items_drains:
  assumes run: "relocate_items d items fs ms = Inr (fs', ms')"
    and it: "iterdir fs sd = Inr items" and ap: "\<not> prefix sd d" "\<not> prefix d sd"
  shows "resolve (tree fs') sd = Inr (Dir [])"
proof (rule no_children_empty)
  have dir: "kind_at fs sd = IsDir" using iterdir_Inr(1)[OF it] by (simp add: is_dir_kind)
  have "\<forall>i\<in>set items. \<not> prefix i sd" using iterdir_Inr(2)[OF it] by auto
  show "is_dir fs' sd"
  proof (rule ccontr)
    assume nd: "\<not> is_dir fs' sd"
    have t: "kind_at fs' sd = kind_at fs sd" if "kind_at fs' sd \<noteq> Absent"
      using relocate_items_kind_back[OF run that ap(2)] by simp
    have "kind_at fs' sd \<noteq> Absent"
    proof
      assume ab: "kind_at fs' sd = Absent"
      have "kind_at fs' sd = IsDir" using run dir \<open>\<forall>i\<in>set items. \<not> prefix i sd\<close>
      proof (induction items arbitrary: fs ms)
        case Nil
        then show ?case by simp
      next
        case (Cons item rest)
        from Cons.prems(1) show ?case
        proof (cases rule: relocate_items_Cons_Inr)
          case (1 fs2 target)
          from 1(1) obtain z where tz: "target = d @ [z]" by (rule target_under)
          have "\<not> prefix target sd" using apart_snoc(5)[OF ap] tz by simp
          with move_fresh_kind[OF 1(3,2), of sd] Cons.prems(2,3)
          have "kind_at fs2 sd = IsDir" by simp
          from Cons.IH[OF 1(4) this] Cons.prems(3) show ?thesis by simp
        qed
      qed
      with ab show False by simp
    qed
    from t[OF this] dir nd show False by (simp add: is_dir_kind)
  qed
  show "\<forall>x. \<not> path_exists fs' (sd @ [x])"
  proof (intro allI notI)
    fix x assume "path_exists fs' (sd @ [x])"
    then have ne: "kind_at fs' (sd @ [x]) \<noteq> Absent" by (simp add: path_exists_kind)
    have "\<not> prefix d (sd @ [x])"
    proof
      assume "prefix d (sd @ [x])"
      from prefix_snoc_cases[OF this] ap have "d = sd @ [x]" by auto
      with ap(1) show False by simp
    qed
    from relocate_items_kind_back[OF run ne this]
    have k: "kind_at fs (sd @ [x]) \<noteq> Absent" "\<forall>i\<in>set items. \<not> prefix i (sd @ [x])"
      using ne by simp_all
    from k(1) iterdir_Inr(2)[OF it] have "sd @ [x] \<in> set items" by (auto simp: path_exists_kind)
    with k(2) show False by auto
  qed
qed

section \<open>The legacy migration\<close>

lemma relocate_each_Cons_split:
  assumes "relocate_each b (a # rest) fs ms = Inr (fs', ms')"
  shows "\<exists>f1 m1. relocate_each b [a] fs ms = Inr (f1, m1) \<and>
           relocate_each b rest f1 m1 = Inr (fs', ms')"
proof -
  obtain l d where a: "a = (l, d)" by (cases a)
  from assms[unfolded a] show ?thesis
  proof (cases rule: relocate_each_Cons_Inr)
    case skip
    then show ?thesis by (simp add: a Let_def)
  next
    case (fold fs1 items fs2 ms2 fs3)
    then show ?thesis by (simp add: a Let_def is_dir_exists)
  qed
qed

lemma legacy_entry:
  "(l, d) \<in> set LEGACY_FOLDER_REMAP \<Longrightarrow>
   Path l = [l] \<and> Path d = [''Documents'', l] \<and> l \<noteq> ''Documents''"
  by (auto simp: LEGACY_FOLDER_REMAP_def)

lemma resolve_parent:
  "resolve t (p @ [x]) = Inr n \<Longrightarrow> \<exists>es. resolve t p = Inr (Dir es) \<and> map_of es x = Some n"
proof -
  assume a: "resolve t (p @ [x]) = Inr n"
  then obtain m where m: "resolve t p = Inr m" by (auto simp: resolve_append split: sum.splits)
  with a have "resolve m [x] = Inr n" by (simp add: resolve_append)
  then obtain es where "m = Dir es" "map_of es x = Some n"
    by (cases m) (auto split: option.splits)
  with m show ?thesis by simp
qed

lemma relocate_items_denied:
  "relocate_items d items fs ms = Inr (fs', ms') \<Longrightarrow> rmdir_denied fs' = rmdir_denied fs"
  using relocate_items_log[of fs d items ms] by (auto simp: extends_def final_fs_def)

lemma relocate_each_denied:
  "relocate_each b lm fs ms = Inr (fs', ms') \<Longrightarrow> rmdir_denied fs' = rmdir_denied fs"
  using relocate_each_log[of fs b lm ms] by (auto simp: extends_def final_fs_def)

lemma organize_entries_denied:
  "organize_entries lc b es fs ms = Inr (fs', ms') \<Longrightarrow> rmdir_denied fs' = rmdir_denied fs"
  using organize_entries_log[of fs lc b es ms] by (auto simp: extends_def final_fs_def)

lemma mkdir_parents_denied:
  "mkdir_parents fs p = Inr fs' \<Longrightarrow> rmdir_denied fs' = rmdir_denied fs"
  using mkdir_parents_effects[of fs p fs'] by simp

lemma rmdir_empty_succeeds:
  assumes "resolve (tree fs) p = Inr (Dir [])" "p \<noteq> []" "p \<notin> set (rmdir_denied fs)"
  shows "\<exists>fs'. rmdir fs p = Inr fs'"
proof -
  from assms(2) obtain q x where p: "p = q @ [x]" by (cases p rule: rev_cases) auto
  from resolve_parent[OF assms(1)[unfolded p]] obtain es where
    "resolve (tree fs) (butlast p) = Inr (Dir es)" by (auto simp: p)
  from set_entry_total[OF assms(2) this, of None] assms(1,3) show ?thesis
    by (auto simp: rmdir_def)
qed

lemma one_fold_child:
  assumes run: "relocate_each b [(l, d)] fs ms = Inr (f1, m1)"
    and child: "resolve (tree fs) ((b @ Path l) @ [x]) = Inr n"
    and ap: "\<not> prefix (b @ Path l) (b @ Path d)" "\<not> prefix (b @ Path d) (b @ Path l)"
  shows "\<exists>z. ((b @ Path l) @ [x], (b @ Path d) @ [z]) \<in> set (drop (length ms) m1) \<and>
           resolve (tree f1) ((b @ Path d) @ [z]) = Inr n \<and>
           (\<exists>g. (b @ Path d) @ [z] = collision_safe g n ((b @ Path d) @ [x]))"
  using run
proof (cases rule: relocate_each_Cons_Inr)
  case skip
  from resolve_parent[OF child] skip(1) show ?thesis by (simp add: is_dir_resolve)
next
  case (fold fs1 items fs2 ms2 fs3)
  let ?sd = "b @ Path l" and ?dd = "b @ Path d"
  have pe: "path_exists fs (?sd @ [x])" using child by (simp add: path_exists_def)
  have "resolve (tree fs1) (?sd @ [x]) = resolve (tree fs) (?sd @ [x])"
    by (rule mkdir_parents_frame[OF fold(2) pe apart_snoc(3)[OF ap]])
  with child have c1: "resolve (tree fs1) (?sd @ [x]) = Inr n" by simp
  then have "path_exists fs1 (?sd @ [x])" by (simp add: path_exists_def)
  with iterdir_Inr(2)[OF fold(3)] have mem: "?sd @ [x] \<in> set items" by blast
  have sib: "\<forall>j\<in>set items. \<exists>y. j = ?sd @ [y]" using iterdir_Inr(2)[OF fold(3)] by blast
  from relocate_items_moves_node[OF fold(4) mem c1 sib ap] obtain z where
    z: "(?sd @ [x], ?dd @ [z]) \<in> set (drop (length ms) ms2)"
    "resolve (tree fs2) (?dd @ [z]) = Inr n"
    "\<exists>g. ?dd @ [z] = collision_safe g n (?dd @ [path_name (?sd @ [x])])" by blast
  from z(3) have v: "\<exists>g. ?dd @ [z] = collision_safe g n (?dd @ [x])"
    by (simp add: path_name_def)
  have "resolve (tree fs3) (?dd @ [z]) = resolve (tree fs2) (?dd @ [z])"
    unfolding fold(5) by (rule rmdir_try_frame[OF apart_snoc(4)[OF ap] apart_snoc(5)[OF ap]])
  with z(1,2) v fold(6) show ?thesis by (intro exI[of _ z]) auto
qed

lemma one_fold_gone:
  assumes run: "relocate_each b [(l, d)] fs ms = Inr (f1, m1)"
    and dir: "is_dir fs (b @ Path l)" and nd: "b @ Path l \<notin> set (rmdir_denied fs)"
    and ap: "\<not> prefix (b @ Path l) (b @ Path d)" "\<not> prefix (b @ Path d) (b @ Path l)"
    and ne: "Path l \<noteq> []"
  shows "\<not> path_exists f1 (b @ Path l)"
  using run
proof (cases rule: relocate_each_Cons_Inr)
  case skip
  with dir show ?thesis by simp
next
  case (fold fs1 items fs2 ms2 fs3)
  let ?sd = "b @ Path l" and ?dd = "b @ Path d"
  from relocate_items_drains[OF fold(4,3) ap] have e: "resolve (tree fs2) ?sd = Inr (Dir [])" .
  have "rmdir_denied fs2 = rmdir_denied fs"
    using relocate_items_denied[OF fold(4)] mkdir_parents_denied[OF fold(2)] by simp
  with nd ne rmdir_empty_succeeds[OF e] obtain g where g: "rmdir fs2 ?sd = Inr g" by auto
  with fold(5) have "fs3 = g" by simp
  with rmdir_kind[OF g, of ?sd] fold(6) show ?thesis by (auto simp: path_exists_kind)
qed

lemma rmdir_try_absent:
  "kind_at fs q = Absent \<Longrightarrow> kind_at (case rmdir fs p of Inl e \<Rightarrow> fs | Inr x \<Rightarrow> x) q = Absent"
  using rmdir_kind[of fs p _ q] by (auto split: sum.splits)

lemma relocate_each_absent:
  "relocate_each b lm fs ms = Inr (fs', ms') \<Longrightarrow> kind_at fs q = Absent \<Longrightarrow>
   \<forall>(l, d)\<in>set lm. \<not> prefix q (b @ Path d) \<and> \<not> prefix (b @ Path d) q \<Longrightarrow>
   kind_at fs' q = Absent"
proof (induction lm arbitrary: fs ms)
  case Nil
  then show ?case by simp
next
  case (Cons a rest)
  obtain legacy_name dest_rel where a: "a = (legacy_name, dest_rel)" by (cases a)
  from Cons.prems(3) have np: "\<not> prefix q (b @ Path dest_rel)" "\<not> prefix (b @ Path dest_rel) q"
    and rest: "\<forall>(l, d)\<in>set rest. \<not> prefix q (b @ Path d) \<and> \<not> prefix (b @ Path d) q"
    by (auto simp: a)
  from Cons.prems(1)[unfolded a] show ?case
  proof (cases rule: relocate_each_Cons_Inr)
    case skip
    from Cons.IH[OF skip(2) Cons.prems(2) rest] show ?thesis .
  next
    case (fold fs1 items fs2 ms2 fs3)
    have k1: "kind_at fs1 q = Absent"
      using mkdir_parents_kind[OF fold(2), of q] np(1) Cons.prems(2) by simp
    have k2: "kind_at fs2 q = Absent"
      using relocate_items_kind_back[OF fold(4) _ np(2)] k1 by auto
    from rmdir_try_absent[OF k2] fold(5) have "kind_at fs3 q = Absent" by simp
    from Cons.IH[OF fold(6) this rest] show ?thesis .
  qed
qed

lemma legacy_child_moved:
  "relocate_each b lm fs ms = Inr (fs', ms') \<Longrightarrow> set lm \<subseteq> set LEGACY_FOLDER_REMAP \<Longrightarrow>
   distinct (map fst lm) \<Longrightarrow> (l, d) \<in> set lm \<Longrightarrow> resolve (tree fs) (b @ [l, x]) = Inr n \<Longrightarrow>
   \<exists>z. (b @ [l, x], b @ [''Documents'', l, z]) \<in> set (drop (length ms) ms') \<and>
       resolve (tree fs') (b @ [''Documents'', l, z]) = Inr n \<and>
       (\<exists>g. b @ [''Documents'', l, z] = collision_safe g n (b @ [''Documents'', l, x]))"
proof (induction lm arbitrary: fs ms)
  case Nil
  then show ?case by simp
next
  case (Cons a rest)
  from relocate_each_Cons_split[OF Cons.prems(1)] obtain f1 m1 where
    one: "relocate_each b [a] fs ms = Inr (f1, m1)"
    and more: "relocate_each b rest f1 m1 = Inr (fs', ms')" by blast
  obtain l0 d0 where a: "a = (l0, d0)" by (cases a)
  from Cons.prems(2) a have a_in: "(l0, d0) \<in> set LEGACY_FOLDER_REMAP" by simp
  note pa = legacy_entry[OF a_in]
  from Cons.prems(2,4) have "(l, d) \<in> set LEGACY_FOLDER_REMAP" by auto
  note pl = legacy_entry[OF this]
  from relocate_each_records[OF one] obtain n1 where n1: "m1 = ms @ n1" by blast
  from relocate_each_records[OF more] obtain n2 where n2: "ms' = m1 @ n2" by blast
  show ?case
  proof (cases "l0 = l")
    case True
    have c: "resolve (tree fs) ((b @ Path l0) @ [x]) = Inr n"
      using Cons.prems(5) pa True by simp
    have ap: "\<not> prefix (b @ Path l0) (b @ Path d0)" "\<not> prefix (b @ Path d0) (b @ Path l0)"
      using pa by auto
    from one_fold_child[OF one[unfolded a] c ap] obtain z where
      z: "((b @ Path l0) @ [x], (b @ Path d0) @ [z]) \<in> set (drop (length ms) m1)"
      "resolve (tree f1) ((b @ Path d0) @ [z]) = Inr n"
      "\<exists>g. (b @ Path d0) @ [z] = collision_safe g n ((b @ Path d0) @ [x])" by blast
    have t: "(b @ Path d0) @ [z] = b @ [''Documents'', l, z]" using pa True by simp
    have t': "(b @ Path d0) @ [x] = b @ [''Documents'', l, x]" using pa True by simp
    from z(3) have v: "\<exists>g. b @ [''Documents'', l, z] = collision_safe g n (b @ [''Documents'', l, x])"
      unfolding t t' .
    have s: "(b @ Path l0) @ [x] = b @ [l, x]" using pa True by simp
    have pe: "path_exists f1 (b @ [''Documents'', l, z])"
      using z(2) t by (simp add: path_exists_def)
    have "\<forall>(l', d')\<in>set rest.
        \<not> prefix (b @ Path l') (b @ [''Documents'', l, z]) \<and>
        \<not> prefix (b @ [''Documents'', l, z]) (b @ Path l') \<and>
        \<not> prefix (b @ [''Documents'', l, z]) (b @ Path d')"
    proof (clarify)
      fix l' d' assume "(l', d') \<in> set rest"
      with Cons.prems(2) have "(l', d') \<in> set LEGACY_FOLDER_REMAP" by auto
      from legacy_entry[OF this]
      show "\<not> prefix (b @ Path l') (b @ [''Documents'', l, z]) \<and>
        \<not> prefix (b @ [''Documents'', l, z]) (b @ Path l') \<and>
        \<not> prefix (b @ [''Documents'', l, z]) (b @ Path d')" by auto
    qed
    from relocate_each_frame[OF more pe this] z(2) t
    have "resolve (tree fs') (b @ [''Documents'', l, z]) = Inr n" by simp
    moreover from z(1) n1 n2 s t
    have "(b @ [l, x], b @ [''Documents'', l, z]) \<in> set (drop (length ms) ms')" by auto
    ultimately show ?thesis using v by blast
  next
    case False
    with Cons.prems(4) a have in_rest: "(l, d) \<in> set rest" by auto
    have pe: "path_exists fs (b @ [l, x])" using Cons.prems(5) by (simp add: path_exists_def)
    have "\<forall>(l', d')\<in>set [a].
        \<not> prefix (b @ Path l') (b @ [l, x]) \<and> \<not> prefix (b @ [l, x]) (b @ Path l') \<and>
        \<not> prefix (b @ [l, x]) (b @ Path d')"
      using pa pl False by (auto simp: a)
    from relocate_each_frame[OF one pe this] Cons.prems(5)
    have "resolve (tree f1) (b @ [l, x]) = Inr n" by simp
    from Cons.IH[OF more _ _ in_rest this] Cons.prems(2,3) obtain z where
      "(b @ [l, x], b @ [''Documents'', l, z]) \<in> set (drop (length m1) ms')"
      "resolve (tree fs') (b @ [''Documents'', l, z]) = Inr n"
      "\<exists>g. b @ [''Documents'', l, z] = collision_safe g n (b @ [''Documents'', l, x])" by auto
    with n1 n2 show ?thesis by (intro exI[of _ z]) (auto dest: in_set_dropD)
  qed
qed

lemma legacy_dir_gone:
  "relocate_each b lm fs ms = Inr (fs', ms') \<Longrightarrow> set lm \<subseteq> set LEGACY_FOLDER_REMAP \<Longrightarrow>
   distinct (map fst lm) \<Longrightarrow> (l, d) \<in> set lm \<Longrightarrow> is_dir fs (b @ [l]) \<Longrightarrow>
   b @ [l] \<notin> set (rmdir_denied fs) \<Longrightarrow> \<not> path_exists fs' (b @ [l])"
proof (induction lm arbitrary: fs ms)
  case Nil
  then show ?case by simp
next
  case (Cons a rest)
  from relocate_each_Cons_split[OF Cons.prems(1)] obtain f1 m1 where
    one: "relocate_each b [a] fs ms = Inr (f1, m1)"
    and more: "relocate_each b rest f1 m1 = Inr (fs', ms')" by blast
  obtain l0 d0 where a: "a = (l0, d0)" by (cases a)
  from Cons.prems(2) a have a_in: "(l0, d0) \<in> set LEGACY_FOLDER_REMAP" by simp
  note pa = legacy_entry[OF a_in]
  from Cons.prems(2,4) have "(l, d) \<in> set LEGACY_FOLDER_REMAP" by auto
  note pl = legacy_entry[OF this]
  show ?case
  proof (cases "l0 = l")
    case True
    have ap: "\<not> prefix (b @ Path l0) (b @ Path d0)" "\<not> prefix (b @ Path d0) (b @ Path l0)"
      "Path l0 \<noteq> []" using pa by auto
    have "\<not> path_exists f1 (b @ Path l0)"
      using one_fold_gone[OF one[unfolded a] _ _ ap] Cons.prems(5,6) pa True by simp
    then have k: "kind_at f1 (b @ [l]) = Absent" using pa True by (simp add: path_exists_kind)
    have "\<forall>(l', d')\<in>set rest. \<not> prefix (b @ [l]) (b @ Path d') \<and> \<not> prefix (b @ Path d') (b @ [l])"
    proof (clarify)
      fix l' d' assume "(l', d') \<in> set rest"
      with Cons.prems(2) have "(l', d') \<in> set LEGACY_FOLDER_REMAP" by auto
      from legacy_entry[OF this] pl
      show "\<not> prefix (b @ [l]) (b @ Path d') \<and> \<not> prefix (b @ Path d') (b @ [l])" by auto
    qed
    from relocate_each_absent[OF more k this] show ?thesis by (simp add: path_exists_kind)
  next
    case False
    with Cons.prems(4) a have in_rest: "(l, d) \<in> set rest" by auto
    have pe: "path_exists fs (b @ [l])" using Cons.prems(5) by (rule is_dir_exists)
    have "\<forall>(l', d')\<in>set [a].
        \<not> prefix (b @ Path l') (b @ [l]) \<and> \<not> prefix (b @ [l]) (b @ Path l') \<and>
        \<not> prefix (b @ [l]) (b @ Path d')"
      using pa pl False by (auto simp: a)
    from relocate_each_frame[OF one pe this] Cons.prems(5)
    have d1: "is_dir f1 (b @ [l])" by (simp add: is_dir_def)
    have "b @ [l] \<notin> set (rmdir_denied f1)"
      using relocate_each_denied[OF one] Cons.prems(6) by simp
    from Cons.IH[OF more _ _ in_rest d1 this] Cons.prems(2,3) show ?thesis by auto
  qed
qed

lemma legacy_not_dest:
  "(l, d) \<in> set LEGACY_FOLDER_REMAP \<Longrightarrow> l \<notin> {''Documents'', ''Media'', ''Other''}"
  by (auto simp: LEGACY_FOLDER_REMAP_def)

lemma legacy_distinct: "distinct (map fst LEGACY_FOLDER_REMAP)"
  by (simp add: LEGACY_FOLDER_REMAP_def)

lemma move_list_performed:
  assumes "organize_folder lc b fs = Inr (fs', moves)" "(s, t) \<in> set moves"
  shows "Move s t None \<in> set (performed fs (organize_folder lc b fs))"
proof -
  from organize_folder_log[of fs lc b] assms(1) obtain new where
    n: "extends fs (final_fs (organize_folder lc b fs)) new"
    "filter is_move new = map fresh_move moves" by auto
  from assms(2) have "fresh_move (s, t) \<in> set (map fresh_move moves)" by force
  with n(2) have "Move s t None \<in> set (filter is_move new)" by (simp add: fresh_move_def)
  then show ?thesis using performed_extends[OF n(1)] by simp
qed

lemma legacy_folded:
  assumes run: "organize_folder lc b fs = Inr (fs', moves)"
    and leg: "(l, d) \<in> set LEGACY_FOLDER_REMAP" and dir: "is_dir fs (b @ [l])"
  shows "resolve (tree fs) (b @ [l, x]) = Inr n \<Longrightarrow>
      \<exists>z. (b @ [l, x], b @ Path d @ [z]) \<in> set moves \<and>
          resolve (tree fs') (b @ Path d @ [z]) = Inr n \<and>
          Move (b @ [l, x]) (b @ Path d @ [z]) None \<in> set (performed fs (organize_folder lc b fs)) \<and>
          (\<exists>g. b @ Path d @ [z] = collision_safe g n (b @ Path d @ [x]))"
    and "b @ [l] \<notin> set (rmdir_denied fs) \<Longrightarrow> \<not> path_exists fs' (b @ [l])"
proof -
  from run obtain entries fs1 ms1 where it: "iterdir fs b = Inr entries"
    and p1: "organize_entries lc b entries fs [] = Inr (fs1, ms1)"
    and p2: "relocate_each b LEGACY_FOLDER_REMAP fs1 ms1 = Inr (fs', moves)"
    by (rule organize_folder_Inr)
  from first_pass_skips(1,3)[OF it p1 dir] legacy_not_dest[OF leg]
  have d1: "is_dir fs1 (b @ [l])"
    and r1: "resolve (tree fs1) (b @ [l]) = resolve (tree fs) (b @ [l])" by simp_all
  have dn: "rmdir_denied fs1 = rmdir_denied fs" by (rule organize_entries_denied[OF p1])
  {
    assume c: "resolve (tree fs) (b @ [l, x]) = Inr n"
    have "resolve (tree fs1) ((b @ [l]) @ [x]) = resolve (tree fs) ((b @ [l]) @ [x])"
      unfolding resolve_append[of _ "b @ [l]" "[x]"] r1 ..
    with c have "resolve (tree fs1) (b @ [l, x]) = Inr n" by simp
    from legacy_child_moved[OF p2 subset_refl legacy_distinct leg this] obtain z where
      z: "(b @ [l, x], b @ [''Documents'', l, z]) \<in> set (drop (length ms1) moves)"
      "resolve (tree fs') (b @ [''Documents'', l, z]) = Inr n"
      "\<exists>g. b @ [''Documents'', l, z] = collision_safe g n (b @ [''Documents'', l, x])" by blast
    from z(1) have m: "(b @ [l, x], b @ [''Documents'', l, z]) \<in> set moves" by (rule in_set_dropD)
    have t: "b @ Path d @ [z] = b @ [''Documents'', l, z]" using legacy_entry[OF leg] by simp
    have t': "b @ Path d @ [x] = b @ [''Documents'', l, x]" using legacy_entry[OF leg] by simp
    from m z(2,3) move_list_performed[OF run m] t t'
    show "\<exists>z. (b @ [l, x], b @ Path d @ [z]) \<in> set moves \<and>
          resolve (tree fs') (b @ Path d @ [z]) = Inr n \<and>
          Move (b @ [l, x]) (b @ Path d @ [z]) None \<in> set (performed fs (organize_folder lc b fs)) \<and>
          (\<exists>g. b @ Path d @ [z] = collision_safe g n (b @ Path d @ [x]))"
      by (intro exI[of _ z]) simp
  }
  assume "b @ [l] \<notin> set (rmdir_denied fs)"
  with dn have "b @ [l] \<notin> set (rmdir_denied fs1)" by simp
  from legacy_dir_gone[OF p2 subset_refl legacy_distinct leg d1 this]
  show "\<not> path_exists fs' (b @ [l])" .
qed

section \<open>When the primitives succeed\<close>

lemma resolve_error: "resolve t p = Inl e \<Longrightarrow> e = ENOENT \<or> e = ENOTDIR"
  by (induction t p rule: resolve.induct) (auto split: option.splits)

lemma resolve_ENOTDIR:
  "resolve t p = Inl ENOTDIR \<Longrightarrow> \<exists>q c. strict_prefix q p \<and> resolve t q = Inr (File c)"
proof (induction t p rule: resolve.induct)
  case (1 n)
  then show ?case by simp
next
  case (2 c x p)
  show ?case by (intro exI[of _ "[]"] exI[of _ c]) simp
next
  case (3 es x p)
  from 3(2) obtain m where m: "map_of es x = Some m" "resolve m p = Inl ENOTDIR"
    by (auto split: option.splits)
  from 3(1)[OF m] obtain q c where "strict_prefix q p" "resolve m q = Inr (File c)" by blast
  with m(1) show ?case by (intro exI[of _ "x # q"] exI[of _ c]) simp
qed

lemma is_file_kind: "is_file fs q \<longleftrightarrow> (\<exists>c. kind_at fs q = IsFile c)"
  by (auto simp: is_file_def kind_at_def kind_of_def split: sum.splits node.splits)

lemma no_file_above_alt:
  "no_file_above fs p \<longleftrightarrow> (\<forall>q c. prefix q p \<longrightarrow> kind_at fs q \<noteq> IsFile c)"
  by (auto simp: no_file_above_def is_file_kind in_set_prefixes)

lemma is_dir_mkdir_parents: "is_dir fs p \<Longrightarrow> mkdir_parents fs p = Inr fs"
  by (subst mkdir_parents.simps)
     (auto simp: os_mkdir_def is_dir_def split: sum.splits node.splits)

lemma mkdir_parents_total:
  "no_file_above fs p \<Longrightarrow> \<exists>fs'. mkdir_parents fs p = Inr fs'"
proof (induction p arbitrary: fs rule: rev_induct)
  case Nil
  have "kind_at fs [] \<noteq> Absent" by (simp add: kind_at_def kind_of_def split: node.splits)
  with Nil have "is_dir fs []"
    by (cases "kind_at fs []") (auto simp: no_file_above_alt is_dir_kind)
  from is_dir_mkdir_parents[OF this] show ?case by blast
next
  case (snoc x p)
  have nfa: "no_file_above fs p" using snoc.prems by (auto simp: no_file_above_alt)
  show ?case
  proof (cases "kind_at fs (p @ [x])")
    case IsDir
    then have "is_dir fs (p @ [x])" by (simp add: is_dir_kind)
    from is_dir_mkdir_parents[OF this] show ?thesis by blast
  next
    case (IsFile c)
    with snoc.prems show ?thesis by (auto simp: no_file_above_alt)
  next
    case Absent
    then obtain e where e: "resolve (tree fs) (p @ [x]) = Inl e"
      by (auto simp: kind_at_def kind_of_def split: sum.splits node.splits)
    from snoc.IH[OF nfa] obtain fs1 where m1: "mkdir_parents fs p = Inr fs1" by blast
    have create: "\<exists>g. os_mkdir h (p @ [x]) = Inr g"
      if "is_dir h p" "kind_at h (p @ [x]) = Absent" for h
    proof -
      from that(1) obtain es where es: "resolve (tree h) p = Inr (Dir es)"
        by (auto simp: is_dir_resolve)
      from set_entry_total[of "p @ [x]" "tree h" es "Some (Dir [])"] es
      obtain t where "set_entry (tree h) (p @ [x]) (Some (Dir [])) = Some t" by auto
      with es that(2) show ?thesis
        by (auto simp: os_mkdir_def kind_at_def kind_of_def split: sum.splits node.splits)
    qed
    show ?thesis
    proof (cases "is_dir fs p")
      case True
      from create[OF True Absent] obtain g where "os_mkdir fs (p @ [x]) = Inr g" by blast
      then show ?thesis by (subst mkdir_parents.simps) simp
    next
      case False
      have "kind_at fs p = Absent"
      proof (cases "kind_at fs p")
        case (IsFile c)
        with nfa show ?thesis by (auto simp: no_file_above_alt)
      next
        case IsDir
        with False show ?thesis by (simp add: is_dir_kind)
      qed simp
      then obtain e' where e': "resolve (tree fs) p = Inl e'"
        by (auto simp: kind_at_def kind_of_def split: sum.splits node.splits)
      have "e' = ENOENT"
      proof (rule ccontr)
        assume "e' \<noteq> ENOENT"
        with resolve_error[OF e'] have "resolve (tree fs) p = Inl ENOTDIR" using e' by auto
        from resolve_ENOTDIR[OF this] obtain q c where
          "strict_prefix q p" "resolve (tree fs) q = Inr (File c)" by blast
        with nfa show False by (auto simp: no_file_above_alt kind_at_def strict_prefix_def)
      qed
      with e e' have om: "os_mkdir fs (p @ [x]) = Inl ENOENT"
        by (simp add: os_mkdir_def)
      have d1: "is_dir fs1 p" using mkdir_parents_kind[OF m1, of p] by (simp add: is_dir_kind)
      have "kind_at fs1 (p @ [x]) = Absent"
        using mkdir_parents_kind[OF m1, of "p @ [x]"] Absent by simp
      from create[OF d1 this] obtain g where "os_mkdir fs1 (p @ [x]) = Inr g" by blast
      then have "mkdir_exist_ok fs1 (p @ [x]) = Inr g" by (simp add: mkdir_exist_ok_def)
      with om m1 show ?thesis by (subst mkdir_parents.simps) simp
    qed
  qed
qed

lemma move_total:
  assumes src: "resolve (tree fs) src = Inr n" "src \<noteq> []"
    and dst: "\<not> path_exists fs dst" "dst \<noteq> []" "is_dir fs (butlast dst)"
    and np: "\<not> prefix src dst"
  shows "\<exists>fs'. move fs src dst = Inr fs'"
proof -
  from dst(1) have nd: "\<not> is_dir fs dst" using is_dir_exists by blast
  from src(2) obtain q x where sq: "src = q @ [x]" by (cases src rule: rev_cases) auto
  from resolve_parent[OF src(1)[unfolded sq]] obtain es where
    "resolve (tree fs) (butlast src) = Inr (Dir es)" by (auto simp: sq)
  from set_entry_total[OF src(2) this, of None] obtain t1 where
    t1: "set_entry (tree fs) src None = Some t1" by blast
  have "\<not> prefix src (butlast dst)" using np by (meson prefix_order.trans prefixeq_butlast)
  with kind_of_set_entry[OF t1, of "butlast dst"] dst(3)
  have "kind_of (resolve t1 (butlast dst)) = IsDir" by (simp add: is_dir_kind kind_at_def)
  then obtain es' where "resolve t1 (butlast dst) = Inr (Dir es')"
    by (auto simp: kind_of_def split: sum.splits node.splits)
  from set_entry_total[OF dst(2) this, of "Some n"] obtain t2 where
    t2: "set_entry t1 dst (Some n) = Some t2" by blast
  from np have "src \<noteq> dst" by auto
  with nd dst(1) src(1) np t1 t2 show ?thesis by (simp add: move_def Let_def)
qed

section \<open>The pass over the listing cannot fail\<close>

lemma dests_free_alt:
  "dests_free fs b \<longleftrightarrow>
     is_dir fs b \<and> (\<forall>p\<in>set dest_dirs. \<forall>c. kind_at fs (b @ p) \<noteq> IsFile c)"
  by (simp add: dests_free_def is_file_kind)

lemma dest_root_prefixes:
  "r \<in> set dest_roots \<Longrightarrow> prefix q r \<Longrightarrow> q \<noteq> [] \<Longrightarrow> q \<in> set dest_dirs"
  by (cases q; cases "tl q"; cases "tl (tl q)")
     (auto simp: dest_roots_def dest_dirs_def)

lemma target_not_dest:
  "r \<in> set dest_roots \<Longrightarrow> p \<in> set dest_dirs \<Longrightarrow> \<not> prefix (r @ [z]) p"
  by (auto simp: dest_roots_def dest_dirs_def)

lemma dir_prefix_dir: "is_dir fs b \<Longrightarrow> prefix q b \<Longrightarrow> is_dir fs q"
proof -
  assume d: "is_dir fs b" and p: "prefix q b"
  show ?thesis
  proof (cases "q = b")
    case True
    with d show ?thesis by simp
  next
    case False
    with p have "strict_prefix q b" by (simp add: strict_prefix_def)
    from kind_above_dir[OF _ this, of fs] d show ?thesis by (simp add: is_dir_kind)
  qed
qed

lemma dests_free_no_file_above:
  assumes "dests_free fs b" "r \<in> set dest_roots"
  shows "no_file_above fs (b @ r)"
  unfolding no_file_above_alt
proof (intro allI impI)
  fix q c assume "prefix q (b @ r)"
  then have "prefix q b \<or> (\<exists>q'. q = b @ q' \<and> prefix q' r \<and> q' \<noteq> [])"
    by (auto simp: prefix_append)
  then consider "prefix q b" | q' where "q = b @ q'" "prefix q' r" "q' \<noteq> []"
    by blast
  then show "kind_at fs q \<noteq> IsFile c"
  proof cases
    case 1
    from dir_prefix_dir[OF _ 1] assms(1) show ?thesis by (simp add: dests_free_alt is_dir_kind)
  next
    case 2
    from dest_root_prefixes[OF assms(2) 2(2,3)] assms(1) 2(1) show ?thesis
      by (simp add: dests_free_alt)
  qed
qed

lemma entry_step:
  assumes free: "dests_free fs b" and ok: "listing_ok fs b (e # rest)" and nd: "\<not> is_dir fs e"
  shows "\<exists>fs1 fs2. mkdir_parents fs (dest_of lc b e) = Inr fs1 \<and>
           move fs1 e (ensure_unique_path fs1 (dest_of lc b e @ [path_name e])) = Inr fs2 \<and>
           dests_free fs2 b \<and> listing_ok fs2 b rest"
proof -
  from dest_of_cases[of lc b e] obtain r where r: "dest_of lc b e = b @ r" "r \<in> set dest_roots"
    by blast
  from ok obtain n where en: "e = b @ [n]" and ex: "path_exists fs e"
    by (auto simp: listing_ok_def)
  from ex nd obtain c where fc: "kind_at fs e = IsFile c"
    by (cases "kind_at fs e") (auto simp: path_exists_kind is_dir_kind)
  from mkdir_parents_total[OF dests_free_no_file_above[OF free r(2)]] r(1)
  obtain fs1 where m: "mkdir_parents fs (dest_of lc b e) = Inr fs1" by auto
  define target where "target = ensure_unique_path fs1 (dest_of lc b e @ [path_name e])"
  have fr: "\<not> path_exists fs1 target" unfolding target_def by (rule ensure_unique_path_fresh)
  have tg: "target \<noteq> []" "butlast target = dest_of lc b e"
    using ensure_unique_path_parent[of "dest_of lc b e @ [path_name e]" fs1] target_def by simp_all
  then obtain z where tz: "target = (b @ r) @ [z]" using r(1) by (metis append_butlast_last_id)
  have k1: "kind_at fs1 q = (if prefix q (dest_of lc b e) then IsDir else kind_at fs q)" for q
    by (rule mkdir_parents_kind[OF m])
  have f1: "kind_at fs1 e = IsFile c" using mkdir_parents_file[OF m] fc by simp
  then have res: "resolve (tree fs1) e = Inr (File c)" by (simp add: kind_file_resolve)
  have dd: "is_dir fs1 (butlast target)" using k1[of "dest_of lc b e"] tg(2) by (simp add: is_dir_kind)
  have ne: "e \<noteq> dest_of lc b e" using dd f1 tg(2) by (auto simp: is_dir_kind)
  have "\<not> is_dir fs1 e" using f1 by (simp add: is_dir_kind)
  from nondir_not_prefix[OF this _ ne] dd tg(2) have "\<not> prefix e (dest_of lc b e)"
    by (simp add: is_dir_kind)
  moreover have "e \<noteq> target" using fr f1 by (auto simp: path_exists_kind)
  ultimately have np: "\<not> prefix e target"
    using prefix_snoc_cases[of e "b @ r" z] tz r(1) by auto
  from move_total[OF res _ fr tg(1) dd np] en obtain fs2 where
    v: "move fs1 e target = Inr fs2" by auto
  have k2: "kind_at fs2 q =
     (if prefix target q then kind_at fs1 (e @ drop (length target) q)
      else if prefix e q then Absent else kind_at fs1 q)" for q
    by (rule move_fresh_kind[OF v fr])
  have "is_dir fs2 b"
  proof -
    have "\<not> prefix target b" "\<not> prefix e b" using tz en by auto
    with k2[of b] k1[of b] free show ?thesis by (auto simp: is_dir_kind dests_free_alt)
  qed
  moreover have "\<forall>p\<in>set dest_dirs. \<forall>c'. kind_at fs2 (b @ p) \<noteq> IsFile c'"
  proof (intro ballI allI)
    fix p c' assume p: "p \<in> set dest_dirs"
    have "\<not> prefix target (b @ p)" using target_not_dest[OF r(2) p, of z] tz by simp
    with k2[of "b @ p"] k1[of "b @ p"] free p show "kind_at fs2 (b @ p) \<noteq> IsFile c'"
      by (auto simp: dests_free_alt)
  qed
  moreover have "listing_ok fs2 b rest"
    unfolding listing_ok_def
  proof (intro conjI ballI)
    show "distinct rest" using ok by (simp add: listing_ok_def)
    fix e' assume e': "e' \<in> set rest"
    with ok have "\<exists>n'. e' = b @ [n']" and ex': "path_exists fs e'" and "e' \<noteq> e"
      by (auto simp: listing_ok_def)
    then obtain n' where n': "e' = b @ [n']" by blast
    from n' show "\<exists>n. e' = b @ [n]" by blast
    from ex' k1[of e'] have x1: "kind_at fs1 e' \<noteq> Absent" by (auto simp: path_exists_kind)
    then have "\<not> prefix target e'" by (rule fresh_not_prefix[OF fr])
    moreover have "\<not> prefix e e'" using en n' \<open>e' \<noteq> e\<close> by simp
    ultimately show "path_exists fs2 e'" using k2[of e'] x1 by (simp add: path_exists_kind)
  qed
  ultimately show ?thesis using m v by (auto simp: dests_free_alt target_def)
qed

lemma organize_entries_total:
  "dests_free fs b \<Longrightarrow> listing_ok fs b es \<Longrightarrow>
   \<exists>fs' ms'. organize_entries lc b es fs ms = Inr (fs', ms') \<and> dests_free fs' b"
proof (induction es arbitrary: fs ms)
  case Nil
  then show ?case by simp
next
  case (Cons e rest)
  show ?case
  proof (cases "is_dir fs e")
    case True
    from Cons.prems(2) have "listing_ok fs b rest" by (auto simp: listing_ok_def)
    from Cons.IH[OF Cons.prems(1) this, of ms] True show ?thesis by simp
  next
    case False
    from entry_step[OF Cons.prems False] obtain fs1 fs2 where
      s: "mkdir_parents fs (dest_of lc b e) = Inr fs1"
      "move fs1 e (ensure_unique_path fs1 (dest_of lc b e @ [path_name e])) = Inr fs2"
      "dests_free fs2 b" "listing_ok fs2 b rest" by blast
    from Cons.IH[OF s(3,4)] False s(1,2) show ?thesis
      by (simp add: Let_def dest_of_def[symmetric])
  qed
qed

section \<open>The legacy migration cannot fail\<close>

lemma wf_resolve: "wf_node t \<Longrightarrow> resolve t p = Inr n \<Longrightarrow> wf_node n"
proof (induction t p rule: resolve.induct)
  case (3 es x p)
  from 3(3) obtain m where m: "map_of es x = Some m" "resolve m p = Inr n"
    by (auto split: option.splits)
  from m(1) have "(x, m) \<in> set es" by (rule map_of_SomeD)
  with 3(2) have "wf_node m" by auto
  from 3(1)[OF m(1) this m(2)] show ?case .
qed auto

lemma wf_listing:
  assumes "wf_node (tree fs)" "iterdir fs p = Inr xs"
  shows "distinct xs"
proof -
  from assms(2) obtain es where es: "resolve (tree fs) p = Inr (Dir es)" "xs = map (\<lambda>e. p @ [fst e]) es"
    by (auto simp: iterdir_def split: sum.splits node.splits)
  from wf_resolve[OF assms(1) es(1)] have "distinct (map fst es)" by simp
  then have "distinct (map ((\<lambda>n. p @ [n]) \<circ> fst) es)"
    unfolding map_map[symmetric] by (subst distinct_map) (auto simp: inj_on_def)
  with es(2) show ?thesis by (simp add: comp_def)
qed

lemma relocate_items_total:
  "distinct items \<Longrightarrow> \<forall>i\<in>set items. (\<exists>y. i = sd @ [y]) \<and> path_exists fs i \<Longrightarrow> is_dir fs d \<Longrightarrow>
   \<not> prefix sd d \<Longrightarrow> \<not> prefix d sd \<Longrightarrow> \<exists>fs' ms'. relocate_items d items fs ms = Inr (fs', ms')"
proof (induction items arbitrary: fs ms)
  case Nil
  then show ?case by simp
next
  case (Cons i rest)
  define target where "target = (if is_dir fs i then ensure_unique_dir fs (d @ [path_name i])
                 else ensure_unique_path fs (d @ [path_name i]))"
  from target_def obtain z where tz: "target = d @ [z]" by (rule target_under)
  have fr: "\<not> path_exists fs target"
    unfolding target_def by (simp add: ensure_unique_path_fresh ensure_unique_dir_fresh)
  from Cons.prems(2) obtain y where iy: "i = sd @ [y]" and "path_exists fs i" by auto
  then obtain n where n: "resolve (tree fs) i = Inr n" by (auto simp: path_exists_resolve)
  have np: "\<not> prefix i target" using apart_snoc(1)[OF Cons.prems(4,5)] iy tz by simp
  from move_total[OF n _ fr _ _ np] iy tz Cons.prems(3) obtain fs2 where
    v: "move fs i target = Inr fs2" by auto
  have k2: "kind_at fs2 q =
     (if prefix target q then kind_at fs (i @ drop (length target) q)
      else if prefix i q then Absent else kind_at fs q)" for q
    by (rule move_fresh_kind[OF v fr])
  have "\<forall>j\<in>set rest. (\<exists>y. j = sd @ [y]) \<and> path_exists fs2 j"
  proof
    fix j assume j: "j \<in> set rest"
    with Cons.prems(1,2) have "\<exists>y'. j = sd @ [y']" and ex: "path_exists fs j" and "j \<noteq> i" by auto
    then obtain y' where jy: "j = sd @ [y']" by blast
    from ex have "\<not> prefix target j" by (intro fresh_not_prefix[OF fr]) (simp add: path_exists_kind)
    moreover have "\<not> prefix i j" using iy jy \<open>j \<noteq> i\<close> by simp
    ultimately show "(\<exists>y. j = sd @ [y]) \<and> path_exists fs2 j"
      using k2[of j] ex jy by (simp add: path_exists_kind)
  qed
  moreover have "is_dir fs2 d"
  proof -
    have "\<not> prefix target d" "\<not> prefix i d"
      using tz iy apart_snoc(3)[OF Cons.prems(4,5)] by simp_all
    with k2[of d] Cons.prems(3) show ?thesis by (simp add: is_dir_kind)
  qed
  ultimately obtain fs' ms' where
    "relocate_items d rest fs2 (ms @ [(i, target)]) = Inr (fs', ms')"
    using Cons.IH[of fs2 "ms @ [(i, target)]"] Cons.prems(1,4,5) by auto
  with v show ?case by (auto simp: Let_def target_def split: if_splits)
qed

lemma relocate_items_keeps_dir:
  "relocate_items d items fs ms = Inr (fs', ms') \<Longrightarrow> is_dir fs q \<Longrightarrow>
   \<forall>i\<in>set items. \<not> prefix i q \<Longrightarrow> is_dir fs' q"
proof (induction items arbitrary: fs ms)
  case Nil
  then show ?case by simp
next
  case (Cons item rest)
  from Cons.prems(1) show ?case
  proof (cases rule: relocate_items_Cons_Inr)
    case (1 fs2 target)
    from Cons.prems(2) have "\<not> prefix target q"
      by (intro fresh_not_prefix[OF 1(2)]) (simp add: is_dir_kind)
    with move_fresh_kind[OF 1(3,2), of q] Cons.prems(2,3) have "is_dir fs2 q"
      by (simp add: is_dir_kind)
    from Cons.IH[OF 1(4) this] Cons.prems(3) show ?thesis by simp
  qed
qed

lemma legacy_dest_root: "(l, d) \<in> set LEGACY_FOLDER_REMAP \<Longrightarrow> Path d \<in> set dest_roots"
  by (auto simp: LEGACY_FOLDER_REMAP_def dest_roots_def)

lemma relocate_each_Cons_eq:
  "relocate_each b (a # rest) fs ms =
     (case relocate_each b [a] fs ms of Inl x \<Rightarrow> Inl x
      | Inr (f1, m1) \<Rightarrow> relocate_each b rest f1 m1)"
  by (cases a) (simp add: Let_def split: sum.splits prod.splits)

lemma one_fold_total:
  assumes free: "dests_free fs b" and leg: "(l, d) \<in> set LEGACY_FOLDER_REMAP"
    and dis: "\<forall>es. resolve (tree fs) (b @ [l]) = Inr (Dir es) \<longrightarrow> distinct (map fst es)"
  shows "\<exists>f1 m1. relocate_each b [(l, d)] fs ms = Inr (f1, m1) \<and> dests_free f1 b"
proof (cases "is_dir fs (b @ Path l)")
  case False
  with free show ?thesis by (auto simp: Let_def)
next
  case True
  note pl = legacy_entry[OF leg]
  let ?sd = "b @ Path l" and ?dd = "b @ Path d"
  have ap: "\<not> prefix ?sd ?dd" "\<not> prefix ?dd ?sd" using pl by auto
  from mkdir_parents_total[OF dests_free_no_file_above[OF free legacy_dest_root[OF leg]]]
  obtain fs1 where m: "mkdir_parents fs ?dd = Inr fs1" by blast
  have k1: "kind_at fs1 q = (if prefix q ?dd then IsDir else kind_at fs q)" for q
    by (rule mkdir_parents_kind[OF m])
  have d1: "is_dir fs1 ?sd" "is_dir fs1 ?dd" "is_dir fs1 b"
    using k1[of ?sd] k1[of ?dd] k1[of b] True free by (auto simp: is_dir_kind dests_free_alt)
  from d1(1) obtain es where es: "resolve (tree fs1) ?sd = Inr (Dir es)"
    by (auto simp: is_dir_resolve)
  have "resolve (tree fs1) ?sd = resolve (tree fs) ?sd"
    by (rule mkdir_parents_frame[OF m is_dir_exists[OF True] ap(1)])
  with es dis pl have de: "distinct (map fst es)" by simp
  define items where "items = map (\<lambda>e. ?sd @ [fst e]) es"
  have it: "iterdir fs1 ?sd = Inr items" using es by (simp add: iterdir_def items_def)
  have "distinct (map ((\<lambda>n. ?sd @ [n]) \<circ> fst) es)"
    unfolding map_map[symmetric] using de by (subst distinct_map) (auto simp: inj_on_def)
  then have di: "distinct items" by (simp add: items_def comp_def)
  have sib: "\<forall>i\<in>set items. (\<exists>y. i = ?sd @ [y]) \<and> path_exists fs1 i"
    using iterdir_Inr(2)[OF it] by blast
  from relocate_items_total[OF di sib d1(2) ap] obtain fs2 ms2 where
    r: "relocate_items ?dd items fs1 ms = Inr (fs2, ms2)" by blast
  define fs3 where "fs3 = (case rmdir fs2 ?sd of Inl e \<Rightarrow> fs2 | Inr x \<Rightarrow> x)"
  have run: "relocate_each b [(l, d)] fs ms = Inr (fs3, ms2)"
    using True is_dir_exists[OF True] m it r by (simp add: Let_def fs3_def)
  have nsd: "\<forall>i\<in>set items. \<not> prefix i q" if "length q \<le> Suc (length b)" "q \<noteq> ?sd" for q
  proof
    fix i assume "i \<in> set items"
    with sib obtain y where "i = ?sd @ [y]" by blast
    with that pl show "\<not> prefix i q" by (auto dest: prefix_length_le)
  qed
  have "\<forall>i\<in>set items. \<not> prefix i ?dd"
  proof
    fix i assume "i \<in> set items"
    with sib obtain y where "i = ?sd @ [y]" by blast
    with apart_snoc(3)[OF ap] show "\<not> prefix i ?dd" by simp
  qed
  from relocate_items_keeps_dir[OF r d1(2) this] have d2: "is_dir fs2 ?dd" .
  have "\<forall>i\<in>set items. \<not> prefix i b" by (rule nsd) (use pl in auto)
  from relocate_items_keeps_dir[OF r d1(3) this] have b2: "is_dir fs2 b" .
  have f2: "kind_at fs2 (b @ p) \<noteq> IsFile c" if p: "p \<in> set dest_dirs" for p c
  proof (cases "b @ p = ?dd")
    case True
    with d2 show ?thesis by (simp add: is_dir_kind)
  next
    case False
    have "\<not> prefix ?dd (b @ p)" using False p pl by (auto simp: dest_dirs_def)
    from relocate_items_kind_back[OF r _ this, of ] k1[of "b @ p"] free p show ?thesis
      by (cases "kind_at fs2 (b @ p) = Absent") (auto simp: dests_free_alt)
  qed
  have k3: "kind_at fs3 q = kind_at fs2 q \<or> kind_at fs3 q = Absent" for q
    using rmdir_kind[of fs2 ?sd _ q] by (auto simp: fs3_def split: sum.splits)
  have "is_dir fs3 b"
    using rmdir_try_kind[of b ?sd fs2] b2 pl by (simp add: fs3_def is_dir_kind)
  moreover have "\<forall>p\<in>set dest_dirs. \<forall>c. kind_at fs3 (b @ p) \<noteq> IsFile c"
    using f2 k3 by (metis kind.distinct(1))
  ultimately have "dests_free fs3 b" by (simp add: dests_free_alt)
  with run show ?thesis by blast
qed

lemma relocate_each_total:
  "dests_free fs b \<Longrightarrow> set lm \<subseteq> set LEGACY_FOLDER_REMAP \<Longrightarrow> distinct (map fst lm) \<Longrightarrow>
   \<forall>(l, d)\<in>set lm. \<forall>es. resolve (tree fs) (b @ [l]) = Inr (Dir es) \<longrightarrow> distinct (map fst es) \<Longrightarrow>
   \<exists>fs' ms'. relocate_each b lm fs ms = Inr (fs', ms')"
proof (induction lm arbitrary: fs ms)
  case Nil
  then show ?case by simp
next
  case (Cons a rest)
  obtain l0 d0 where a: "a = (l0, d0)" by (cases a)
  from Cons.prems(2) a have a_in: "(l0, d0) \<in> set LEGACY_FOLDER_REMAP" by simp
  note pa = legacy_entry[OF a_in]
  from Cons.prems(4) a have "\<forall>es. resolve (tree fs) (b @ [l0]) = Inr (Dir es) \<longrightarrow> distinct (map fst es)"
    by auto
  from one_fold_total[OF Cons.prems(1) a_in this, of ms] obtain f1 m1 where
    one: "relocate_each b [(l0, d0)] fs ms = Inr (f1, m1)" and free1: "dests_free f1 b" by blast
  have "\<forall>(l, d)\<in>set rest. \<forall>es. resolve (tree f1) (b @ [l]) = Inr (Dir es) \<longrightarrow> distinct (map fst es)"
  proof (clarify)
    fix l d es assume ld: "(l, d) \<in> set rest" and r: "resolve (tree f1) (b @ [l]) = Inr (Dir es)"
    with Cons.prems(2) have "(l, d) \<in> set LEGACY_FOLDER_REMAP" by auto
    note pl = legacy_entry[OF this]
    from ld Cons.prems(3) a have ne: "l \<noteq> l0" by force
    show "distinct (map fst es)"
    proof (cases "path_exists fs (b @ [l])")
      case True
      have "\<forall>(l', d')\<in>set [(l0, d0)].
        \<not> prefix (b @ Path l') (b @ [l]) \<and> \<not> prefix (b @ [l]) (b @ Path l') \<and>
        \<not> prefix (b @ [l]) (b @ Path d')"
        using pa pl ne by auto
      from relocate_each_frame[OF one True this] r Cons.prems(4) ld show ?thesis by auto
    next
      case False
      then have k: "kind_at fs (b @ [l]) = Absent" by (simp add: path_exists_kind)
      have "\<forall>(l', d')\<in>set [(l0, d0)]. \<not> prefix (b @ [l]) (b @ Path d') \<and> \<not> prefix (b @ Path d') (b @ [l])"
        using pa pl by auto
      from relocate_each_absent[OF one k this] r show ?thesis by (simp add: kind_at_def)
    qed
  qed
  from Cons.IH[OF free1 _ _ this, of m1] Cons.prems(2,3) obtain fs' ms' where
    "relocate_each b rest f1 m1 = Inr (fs', ms')" by auto
  with one show ?case by (subst relocate_each_Cons_eq) (simp add: a)
qed

lemma organize_entries_kind_back:
  "organize_entries lc b es fs ms = Inr (fs', ms') \<Longrightarrow> kind_at fs' q \<noteq> Absent \<Longrightarrow>
   \<forall>r\<in>set dest_roots. \<not> prefix q (b @ r) \<and> \<not> prefix (b @ r) q \<Longrightarrow>
   kind_at fs' q = kind_at fs q"
proof (induction es arbitrary: fs ms)
  case Nil
  then show ?case by simp
next
  case (Cons entry rest)
  from Cons.prems(1) show ?case
  proof (cases rule: organize_entries_Cons_Inr)
    case skip
    from Cons.IH[OF skip(2) Cons.prems(2,3)] show ?thesis .
  next
    case (moved fs1 fs2 target)
    from dest_of_cases[of lc b entry] obtain r where r: "dest_of lc b entry = b @ r" "r \<in> set dest_roots"
      by blast
    from Cons.IH[OF moved(6) Cons.prems(2,3)] have ih: "kind_at fs' q = kind_at fs2 q" .
    have tg: "target \<noteq> []" "butlast target = dest_of lc b entry"
      using ensure_unique_path_parent[of "dest_of lc b entry @ [path_name entry]" fs1] moved(3)
      by simp_all
    then obtain z where tz: "target = (b @ r) @ [z]" using r(1) by (metis append_butlast_last_id)
    have "\<not> prefix target q" using Cons.prems(3) r(2) unfolding tz by (metis append_prefixD)
    moreover have "kind_at fs1 q = kind_at fs q"
      using mkdir_parents_kind[OF moved(2), of q] Cons.prems(3) r by auto
    ultimately show ?thesis
      using move_fresh_kind[OF moved(5,4), of q] ih Cons.prems(2) by (auto split: if_splits)
  qed
qed

lemma legacy_apart_roots:
  "(l, d) \<in> set LEGACY_FOLDER_REMAP \<Longrightarrow>
   \<forall>r\<in>set dest_roots. \<not> prefix (b @ [l]) (b @ r) \<and> \<not> prefix (b @ r) (b @ [l])"
  by (auto simp: LEGACY_FOLDER_REMAP_def dest_roots_def)

lemma organize_folder_total:
  assumes "wf_node (tree fs)" "dests_free fs b"
  shows "\<exists>fs' moves. organize_folder lc b fs = Inr (fs', moves)"
proof -
  from assms(2) have "is_dir fs b" by (simp add: dests_free_alt)
  then obtain es where es: "resolve (tree fs) b = Inr (Dir es)" by (auto simp: is_dir_resolve)
  then obtain entries where it: "iterdir fs b = Inr entries" by (simp add: iterdir_def)
  have "listing_ok fs b entries"
    using wf_listing[OF assms(1) it] iterdir_Inr(2)[OF it] by (auto simp: listing_ok_def)
  from organize_entries_total[OF assms(2) this, of lc "[]"] obtain fs1 ms1 where
    p1: "organize_entries lc b entries fs [] = Inr (fs1, ms1)" and free1: "dests_free fs1 b" by blast
  have "\<forall>(l, d)\<in>set LEGACY_FOLDER_REMAP.
      \<forall>es. resolve (tree fs1) (b @ [l]) = Inr (Dir es) \<longrightarrow> distinct (map fst es)"
  proof (clarify)
    fix l d es' assume ld: "(l, d) \<in> set LEGACY_FOLDER_REMAP"
      and r: "resolve (tree fs1) (b @ [l]) = Inr (Dir es')"
    show "distinct (map fst es')"
    proof (cases "is_dir fs (b @ [l])")
      case True
      from first_pass_skips(3)[OF it p1 True] legacy_not_dest[OF ld] r
      have "resolve (tree fs) (b @ [l]) = Inr (Dir es')" by simp
      from wf_resolve[OF assms(1) this] show ?thesis by simp
    next
      case False
      have "kind_at fs1 (b @ [l]) \<noteq> IsDir"
      proof
        assume k: "kind_at fs1 (b @ [l]) = IsDir"
        then have "kind_at fs1 (b @ [l]) \<noteq> Absent" by simp
        from organize_entries_kind_back[OF p1 this legacy_apart_roots[OF ld]] k False
        show False by (simp add: is_dir_kind)
      qed
      with r show ?thesis by (simp add: kind_at_def)
    qed
  qed
  from relocate_each_total[OF free1 subset_refl legacy_distinct this, of ms1] obtain fs' ms' where
    "relocate_each b LEGACY_FOLDER_REMAP fs1 ms1 = Inr (fs', ms')" by blast
  with it p1 show ?thesis by (simp add: organize_folder_def relocate_legacy_folders_def)
qed

section \<open>Where the entries go\<close>










section \<open>The run returns\<close>

text \<open>
  Claim C7, amended. When the tree is well formed, the base folder is a directory and
  none of the folders \<open>Documents\<close>, \<open>Media\<close>, \<open>Other\<close> and of the category folders under them
  exists as a file, every invocation of \<open>organize_folder\<close> returns a move list, whatever
  removals the system refuses.
\<close>

theorem organize_returns:
  "wf_node (tree fs) \<longrightarrow> dests_free fs base \<longrightarrow>
   (\<exists>fs' moves. organize_folder lc base fs = Inr (fs', moves))"
  using organize_folder_total[of fs base] by blast

theorem organize_returns_witness:
  "wf_node (tree report_fs) \<and> dests_free report_fs [] \<and>
   organize_folder ascii_lower [] report_fs =
     Inr (report_done, [([''report.pdf''], [''Documents'', ''PDF'', ''report (1).pdf''])])"
proof -
  have a: "wf_node (tree report_fs)" by (simp add: report_fs_def)
  have b: "dests_free report_fs []" by code_simp
  from organize_returns[of report_fs "[]" ascii_lower] a b
  obtain fs' moves where c: "organize_folder ascii_lower [] report_fs = Inr (fs', moves)" by blast
  have "organize_folder ascii_lower [] report_fs =
     Inr (report_done, [([''report.pdf''], [''Documents'', ''PDF'', ''report (1).pdf''])])"
    by code_simp
  with a b c show ?thesis by simp
qed

text \<open>
  The claim as stated fails: a base folder that is a listable directory and holds one
  file named \<open>Other\<close> makes the run raise, since the folder \<open>Other\<close> cannot be created.
\<close>

theorem organize_returns_counterexample:
  "wf_node (tree blocked_fs) \<and> is_dir blocked_fs [] \<and>
   iterdir blocked_fs [] = Inr [[''Other'']] \<and>
   organize_folder ascii_lower [] blocked_fs = Inl (EEXIST, blocked_fs)"
proof -
  have a: "wf_node (tree blocked_fs)" by (simp add: blocked_fs_def)
  have b: "is_dir blocked_fs []" by code_simp
  have c: "iterdir blocked_fs [] = Inr [[''Other'']]" by code_simp
  have d: "organize_folder ascii_lower [] blocked_fs = Inl (EEXIST, blocked_fs)" by code_simp
  from a b c d show ?thesis by simp
qed

section \<open>The state after a run\<close>

lemma organize_entries_file_back:
  "organize_entries lc b es fs ms = Inr (fs', ms') \<Longrightarrow> kind_at fs' q = IsFile c \<Longrightarrow>
   (kind_at fs q = IsFile c \<and> q \<notin> set es) \<or> q \<in> snd ` set (drop (length ms) ms')"
proof (induction es arbitrary: fs ms)
  case Nil
  then show ?case by simp
next
  case (Cons entry rest)
  from Cons.prems(1) show ?case
  proof (cases rule: organize_entries_Cons_Inr)
    case skip
    from Cons.IH[OF skip(2) Cons.prems(2)] skip(1) show ?thesis by (auto simp: is_dir_kind)
  next
    case (moved fs1 fs2 target)
    from organize_entries_records[OF moved(6)] obtain new where
      new: "ms' = (ms @ [(entry, target)]) @ new" by blast
    from Cons.IH[OF moved(6) Cons.prems(2)]
    consider "kind_at fs2 q = IsFile c" "q \<notin> set rest"
      | "q \<in> snd ` set (drop (length (ms @ [(entry, target)])) ms')" by blast
    then show ?thesis
    proof cases
      case 2
      with new show ?thesis by auto
    next
      case 1
      show ?thesis
      proof (cases "prefix target q")
        case True
        have "q = target"
        proof (rule ccontr)
          assume "q \<noteq> target"
          with True obtain r where q: "q = target @ r" "r \<noteq> []" by (auto simp: prefix_def)
          have tg: "target \<noteq> []" "butlast target = dest_of lc b entry"
            using ensure_unique_path_parent[of "dest_of lc b entry @ [path_name entry]" fs1] moved(3)
            by simp_all
          from move_fresh_Inr[OF moved(5,4)] have "\<not> prefix entry target" by blast
          then have "\<not> prefix entry (dest_of lc b entry)"
            using tg by (metis prefix_order.trans prefixeq_butlast)
          with moved(1) mkdir_parents_kind[OF moved(2), of entry]
          have nd: "kind_of (resolve (tree fs1) entry) \<noteq> IsDir"
            by (simp add: is_dir_kind kind_at_def)
          have "strict_prefix entry (entry @ r)" using q(2) by (simp add: strict_prefix_def)
          from kind_below_nondir[OF nd this] have "kind_at fs1 (entry @ r) = Absent"
            by (simp add: kind_at_def)
          with move_fresh_kind[OF moved(5,4), of q] q(1) 1(1) show False by simp
        qed
        with new show ?thesis by simp
      next
        case False
        with move_fresh_kind[OF moved(5,4), of q] 1(1)
        have "\<not> prefix entry q" "kind_at fs1 q = IsFile c" by (auto split: if_splits)
        with mkdir_parents_file[OF moved(2)] 1(2) show ?thesis by auto
      qed
    qed
  qed
qed

lemma relocate_each_file_back:
  "relocate_each b lm fs ms = Inr (fs', ms') \<Longrightarrow> kind_at fs' q = IsFile c \<Longrightarrow>
   \<forall>(l, d)\<in>set lm. \<not> prefix (b @ Path d) q \<Longrightarrow> kind_at fs q = IsFile c"
proof (induction lm arbitrary: fs ms)
  case Nil
  then show ?case by simp
next
  case (Cons a rest)
  obtain legacy_name dest_rel where a: "a = (legacy_name, dest_rel)" by (cases a)
  from Cons.prems(3) have np: "\<not> prefix (b @ Path dest_rel) q"
    and rest: "\<forall>(l, d)\<in>set rest. \<not> prefix (b @ Path d) q" by (auto simp: a)
  from Cons.prems(1)[unfolded a] show ?case
  proof (cases rule: relocate_each_Cons_Inr)
    case skip
    from Cons.IH[OF skip(2) Cons.prems(2) rest] show ?thesis .
  next
    case (fold fs1 items fs2 ms2 fs3)
    from Cons.IH[OF fold(6) Cons.prems(2) rest] have k3: "kind_at fs3 q = IsFile c" .
    have "kind_at fs2 q = IsFile c"
      using k3 rmdir_kind[of fs2 "b @ Path legacy_name" _ q] fold(5)
      by (auto split: sum.splits if_splits)
    with relocate_items_kind_back[OF fold(4) _ np] have "kind_at fs1 q = IsFile c" by auto
    with mkdir_parents_file[OF fold(2)] show ?thesis by simp
  qed
qed

lemma relocate_each_keeps_dir:
  "relocate_each b lm fs ms = Inr (fs', ms') \<Longrightarrow> is_dir fs q \<Longrightarrow>
   \<forall>(l, d)\<in>set lm. \<not> prefix (b @ Path l) q \<Longrightarrow> is_dir fs' q"
proof (induction lm arbitrary: fs ms)
  case Nil
  then show ?case by simp
next
  case (Cons a rest)
  obtain legacy_name dest_rel where a: "a = (legacy_name, dest_rel)" by (cases a)
  from Cons.prems(3) have np: "\<not> prefix (b @ Path legacy_name) q"
    and rest: "\<forall>(l, d)\<in>set rest. \<not> prefix (b @ Path l) q" by (auto simp: a)
  from Cons.prems(1)[unfolded a] show ?case
  proof (cases rule: relocate_each_Cons_Inr)
    case skip
    from Cons.IH[OF skip(2) Cons.prems(2) rest] show ?thesis .
  next
    case (fold fs1 items fs2 ms2 fs3)
    have d1: "is_dir fs1 q"
      using mkdir_parents_kind[OF fold(2), of q] Cons.prems(2) by (simp add: is_dir_kind)
    have "\<forall>i\<in>set items. \<not> prefix i q"
    proof
      fix i assume "i \<in> set items"
      with iterdir_Inr(2)[OF fold(3)] obtain x where "i = (b @ Path legacy_name) @ [x]" by blast
      with np show "\<not> prefix i q" by (metis append_prefixD)
    qed
    from relocate_items_keeps_dir[OF fold(4) d1 this] have d2: "is_dir fs2 q" .
    from np have "q \<noteq> b @ Path legacy_name" by auto
    from rmdir_try_kind[OF this, of fs2] d2 fold(5) have "is_dir fs3 q" by (simp add: is_dir_kind)
    from Cons.IH[OF fold(6) this rest] show ?thesis .
  qed
qed

lemma all_dirs_no_moves:
  "\<forall>e\<in>set es. is_dir fs e \<Longrightarrow> organize_entries lc b es fs ms = Inr (fs, ms)"
  by (induction es) simp_all

lemma legacy_dir_left:
  "relocate_each b lm fs ms = Inr (fs', ms') \<Longrightarrow> set lm \<subseteq> set LEGACY_FOLDER_REMAP \<Longrightarrow>
   distinct (map fst lm) \<Longrightarrow> (l, d) \<in> set lm \<Longrightarrow> \<not> is_file fs (b @ [l]) \<Longrightarrow>
   is_dir fs' (b @ [l]) \<Longrightarrow>
   resolve (tree fs') (b @ [l]) = Inr (Dir []) \<and> is_dir fs' (b @ Path d)"
proof (induction lm arbitrary: fs ms)
  case Nil
  then show ?case by simp
next
  case (Cons a rest)
  from relocate_each_Cons_split[OF Cons.prems(1)] obtain f1 m1 where
    one: "relocate_each b [a] fs ms = Inr (f1, m1)"
    and more: "relocate_each b rest f1 m1 = Inr (fs', ms')" by blast
  obtain l0 d0 where a: "a = (l0, d0)" by (cases a)
  from Cons.prems(2) a have a_in: "(l0, d0) \<in> set LEGACY_FOLDER_REMAP" by simp
  note pa = legacy_entry[OF a_in]
  from Cons.prems(2,4) have l_in: "(l, d) \<in> set LEGACY_FOLDER_REMAP" by auto
  note pl = legacy_entry[OF l_in]
  have rest_apart: "\<forall>(l', d')\<in>set rest.
      \<not> prefix (b @ [l]) (b @ Path d') \<and> \<not> prefix (b @ Path d') (b @ [l])"
  proof (clarify)
    fix l' d' assume "(l', d') \<in> set rest"
    with Cons.prems(2) have "(l', d') \<in> set LEGACY_FOLDER_REMAP" by auto
    from legacy_entry[OF this] pl
    show "\<not> prefix (b @ [l]) (b @ Path d') \<and> \<not> prefix (b @ Path d') (b @ [l])" by auto
  qed
  show ?case
  proof (cases "l0 = l")
    case True
    with Cons.prems(3,4) a have dd: "d0 = d" by (force simp: image_iff)
    let ?sd = "b @ Path l0" and ?dd = "b @ Path d0"
    have sd: "?sd = b @ [l]" using pa True by simp
    have ap: "\<not> prefix ?sd ?dd" "\<not> prefix ?dd ?sd" using pa by auto
    have gone: False if "kind_at f1 (b @ [l]) = Absent"
      using relocate_each_absent[OF more that rest_apart] Cons.prems(6) by (simp add: is_dir_kind)
    have rest_frame: "\<forall>(l', d')\<in>set rest.
        \<not> prefix (b @ Path l') (b @ [l]) \<and> \<not> prefix (b @ [l]) (b @ Path l') \<and>
        \<not> prefix (b @ [l]) (b @ Path d')"
    proof (clarify)
      fix l' d' assume ld: "(l', d') \<in> set rest"
      with Cons.prems(2) have "(l', d') \<in> set LEGACY_FOLDER_REMAP" by auto
      note p' = legacy_entry[OF this]
      from ld Cons.prems(3) a True have "l' \<noteq> l" by force
      with p' pl show "\<not> prefix (b @ Path l') (b @ [l]) \<and> \<not> prefix (b @ [l]) (b @ Path l') \<and>
        \<not> prefix (b @ [l]) (b @ Path d')" by auto
    qed
    have rest_keep: "\<forall>(l', d')\<in>set rest. \<not> prefix (b @ Path l') ?dd"
    proof (clarify)
      fix l' d' assume ld: "(l', d') \<in> set rest" and pr: "prefix (b @ Path l') ?dd"
      with Cons.prems(2) have "(l', d') \<in> set LEGACY_FOLDER_REMAP" by auto
      from legacy_entry[OF this] pa pr show False by auto
    qed
    from one[unfolded a] show ?thesis
    proof (cases rule: relocate_each_Cons_Inr)
      case skip
      from skip(1) Cons.prems(5) sd have "kind_at fs (b @ [l]) = Absent"
        by (cases "kind_at fs (b @ [l])") (auto simp: is_dir_kind is_file_kind)
      with skip(2) gone show ?thesis by simp
    next
      case (fold fs1 items fs2 ms2 fs3)
      from fold(6) have f1: "f1 = fs3" by simp
      from relocate_items_drains[OF fold(4,3) ap] have e: "resolve (tree fs2) ?sd = Inr (Dir [])" .
      have same: "fs3 = fs2"
      proof (cases "rmdir fs2 ?sd")
        case (Inl e)
        with fold(5) show ?thesis by simp
      next
        case (Inr g)
        with rmdir_kind[OF Inr, of ?sd] fold(5) f1 sd gone show ?thesis by simp
      qed
      have d1: "is_dir fs1 ?dd" using mkdir_parents_kind[OF fold(2), of ?dd] by (simp add: is_dir_kind)
      have "\<forall>i\<in>set items. \<not> prefix i ?dd"
      proof
        fix i assume "i \<in> set items"
        with iterdir_Inr(2)[OF fold(3)] obtain y where "i = ?sd @ [y]" by blast
        with apart_snoc(3)[OF ap] show "\<not> prefix i ?dd" by simp
      qed
      from relocate_items_keeps_dir[OF fold(4) d1 this] have d2: "is_dir fs2 ?dd" .
      have pe: "path_exists f1 (b @ [l])" using e f1 same sd by (simp add: path_exists_def)
      from relocate_each_frame[OF more pe rest_frame] e f1 same sd
      have "resolve (tree fs') (b @ [l]) = Inr (Dir [])" by simp
      moreover from relocate_each_keeps_dir[OF more _ rest_keep] d2 f1 same dd
      have "is_dir fs' (b @ Path d)" by simp
      ultimately show ?thesis by simp
    qed
  next
    case False
    with Cons.prems(4) a have in_rest: "(l, d) \<in> set rest" by auto
    have "\<not> is_file f1 (b @ [l])"
    proof
      assume "is_file f1 (b @ [l])"
      then obtain c where c: "kind_at f1 (b @ [l]) = IsFile c" by (auto simp: is_file_kind)
      have "\<forall>(l', d')\<in>set [a]. \<not> prefix (b @ Path d') (b @ [l])" using pa pl by (auto simp: a)
      from relocate_each_file_back[OF one c this] Cons.prems(5) show False
        by (simp add: is_file_kind)
    qed
    from Cons.IH[OF more _ _ in_rest this Cons.prems(6)] Cons.prems(2,3) show ?thesis by auto
  qed
qed

lemma second_legacy_pass:
  "set lm \<subseteq> set LEGACY_FOLDER_REMAP \<Longrightarrow> distinct (map fst lm) \<Longrightarrow>
   \<forall>(l, d)\<in>set lm. is_dir fs (b @ [l]) \<longrightarrow>
      resolve (tree fs) (b @ [l]) = Inr (Dir []) \<and> is_dir fs (b @ Path d) \<Longrightarrow>
   \<exists>fs'. relocate_each b lm fs ms = Inr (fs', ms)"
proof (induction lm arbitrary: fs)
  case Nil
  then show ?case by simp
next
  case (Cons a rest)
  obtain l0 d0 where a: "a = (l0, d0)" by (cases a)
  from Cons.prems(1) a have a_in: "(l0, d0) \<in> set LEGACY_FOLDER_REMAP" by simp
  note pa = legacy_entry[OF a_in]
  show ?case
  proof (cases "is_dir fs (b @ Path l0)")
    case False
    from Cons.IH[of fs] Cons.prems obtain fs' where "relocate_each b rest fs ms = Inr (fs', ms)"
      by auto
    with False show ?thesis by (auto simp: a Let_def)
  next
    case True
    let ?sd = "b @ Path l0" and ?dd = "b @ Path d0"
    from True Cons.prems(3) pa have e: "resolve (tree fs) ?sd = Inr (Dir [])" and d: "is_dir fs ?dd"
      by (auto simp: a)
    define fs3 where "fs3 = (case rmdir fs ?sd of Inl e \<Rightarrow> fs | Inr x \<Rightarrow> x)"
    have inv: "\<forall>(l, d)\<in>set rest. is_dir fs3 (b @ [l]) \<longrightarrow>
        resolve (tree fs3) (b @ [l]) = Inr (Dir []) \<and> is_dir fs3 (b @ Path d)"
    proof (clarify)
      fix l d assume ld: "(l, d) \<in> set rest" and dir3: "is_dir fs3 (b @ [l])"
      with Cons.prems(1) have "(l, d) \<in> set LEGACY_FOLDER_REMAP" by auto
      note pl = legacy_entry[OF this]
      from ld Cons.prems(2) a have ne: "l \<noteq> l0" by force
      have r1: "resolve (tree fs3) (b @ [l]) = resolve (tree fs) (b @ [l])"
        unfolding fs3_def by (rule rmdir_try_frame) (use pa pl ne in auto)
      have r2: "resolve (tree fs3) (b @ Path d) = resolve (tree fs) (b @ Path d)"
        unfolding fs3_def by (rule rmdir_try_frame) (use pa pl ne in auto)
      from dir3 r1 have "is_dir fs (b @ [l])" by (simp add: is_dir_def)
      with Cons.prems(3) ld have "resolve (tree fs) (b @ [l]) = Inr (Dir []) \<and> is_dir fs (b @ Path d)"
        by auto
      with r1 r2 show "resolve (tree fs3) (b @ [l]) = Inr (Dir []) \<and> is_dir fs3 (b @ Path d)"
        by (simp add: is_dir_def)
    qed
    from Cons.IH[OF _ _ inv] Cons.prems(1,2) obtain fs' where
      "relocate_each b rest fs3 ms = Inr (fs', ms)" by auto
    with True is_dir_exists[OF True] is_dir_mkdir_parents[OF d] e show ?thesis
      by (auto simp: a Let_def iterdir_def fs3_def)
  qed
qed

lemma second_run_empty:
  assumes run: "organize_folder lc b fs = Inr (fs1, m1)"
  shows "\<exists>fs2. organize_folder lc b fs1 = Inr (fs2, [])"
proof -
  from run obtain entries f0 ms0 where it: "iterdir fs b = Inr entries"
    and p1: "organize_entries lc b entries fs [] = Inr (f0, ms0)"
    and p2: "relocate_each b LEGACY_FOLDER_REMAP f0 ms0 = Inr (fs1, m1)"
    by (rule organize_folder_Inr)
  have nf0: "\<not> is_file f0 (b @ [n])" for n
  proof
    assume "is_file f0 (b @ [n])"
    then obtain c where c: "kind_at f0 (b @ [n]) = IsFile c" by (auto simp: is_file_kind)
    from organize_entries_file_back[OF p1 c]
    consider "kind_at fs (b @ [n]) = IsFile c" "b @ [n] \<notin> set entries"
      | "b @ [n] \<in> snd ` set ms0" by auto
    then show False
    proof cases
      case 1
      from 1(1) have "path_exists fs (b @ [n])" by (simp add: path_exists_kind)
      with iterdir_Inr(2)[OF it] 1(2) show False by blast
    next
      case 2
      then obtain s where "(s, b @ [n]) \<in> set ms0" by auto
      with organize_entries_records[OF p1] have "butlast (b @ [n]) = dest_of lc b s" by auto
      with dest_of_length[of b lc s] show False by simp
    qed
  qed
  have nf1: "\<not> is_file fs1 (b @ [n])" for n
  proof
    assume "is_file fs1 (b @ [n])"
    then obtain c where c: "kind_at fs1 (b @ [n]) = IsFile c" by (auto simp: is_file_kind)
    have "\<forall>(l, d)\<in>set LEGACY_FOLDER_REMAP. \<not> prefix (b @ Path d) (b @ [n])"
      using legacy_entry by auto
    from relocate_each_file_back[OF p2 c this] nf0[of n] show False by (simp add: is_file_kind)
  qed
  have d1: "is_dir fs1 b"
  proof -
    from iterdir_Inr(1)[OF it] organize_entries_skips_dir[OF p1] have "is_dir f0 b" by blast
    moreover have "\<forall>(l, d)\<in>set LEGACY_FOLDER_REMAP. \<not> prefix (b @ Path l) b"
      using legacy_entry by auto
    ultimately show ?thesis using relocate_each_keeps_dir[OF p2] by blast
  qed
  then obtain es where "resolve (tree fs1) b = Inr (Dir es)" by (auto simp: is_dir_resolve)
  then obtain entries1 where it1: "iterdir fs1 b = Inr entries1" by (simp add: iterdir_def)
  have "\<forall>e\<in>set entries1. is_dir fs1 e"
  proof
    fix e assume "e \<in> set entries1"
    with iterdir_Inr(2)[OF it1] obtain n where "e = b @ [n]" "path_exists fs1 e" by blast
    with nf1[of n] show "is_dir fs1 e"
      by (cases "kind_at fs1 e") (auto simp: path_exists_kind is_file_kind is_dir_kind)
  qed
  from all_dirs_no_moves[OF this] have q1: "organize_entries lc b entries1 fs1 [] = Inr (fs1, [])" .
  have "\<forall>(l, d)\<in>set LEGACY_FOLDER_REMAP. is_dir fs1 (b @ [l]) \<longrightarrow>
      resolve (tree fs1) (b @ [l]) = Inr (Dir []) \<and> is_dir fs1 (b @ Path d)"
    using legacy_dir_left[OF p2 subset_refl legacy_distinct _ nf0] by blast
  from second_legacy_pass[OF subset_refl legacy_distinct this, of "[]"] obtain fs2 where
    "relocate_each b LEGACY_FOLDER_REMAP fs1 [] = Inr (fs2, [])" by blast
  with it1 q1 show ?thesis by (simp add: organize_folder_def relocate_legacy_folders_def)
qed

text \<open>
  Claim C5. After a run of \<open>organize_folder\<close> that returns, a second run on the same
  folder returns as well and moves nothing: its move list is empty, so none of its entries
  has a target of the first run as its source. In neither run does a move target a path at
  which something exists.
\<close>

theorem second_run_moves_nothing:
  "\<forall>fs1 m1.
     organize_folder lc base fs = Inr (fs1, m1) \<longrightarrow>
       (\<exists>fs2. organize_folder lc base fs1 = Inr (fs2, [])) \<and>
       (\<forall>fs2 m2. organize_folder lc base fs1 = Inr (fs2, m2) \<longrightarrow>
          (\<forall>(s, t)\<in>set m2. s \<notin> snd ` set m1)) \<and>
       (\<forall>s t pre. Move s t pre \<in> set (performed fs (organize_folder lc base fs)) \<longrightarrow> pre = None) \<and>
       (\<forall>s t pre. Move s t pre \<in> set (performed fs1 (organize_folder lc base fs1)) \<longrightarrow> pre = None)"
proof (intro allI impI)
  fix fs1 m1 assume run: "organize_folder lc base fs = Inr (fs1, m1)"
  from second_run_empty[OF run] obtain fs2 where r2: "organize_folder lc base fs1 = Inr (fs2, [])"
    by blast
  have clean: "\<forall>s t pre. Move s t pre \<in> set (performed g (organize_folder lc base g)) \<longrightarrow> pre = None"
    for g
  proof -
    from organize_folder_log[of g lc base] obtain new where
      n: "extends g (final_fs (organize_folder lc base g)) new"
      "\<forall>s t pre. Move s t pre \<in> set new \<longrightarrow> pre = None" by blast
    then show ?thesis unfolding performed_extends[OF n(1)] by blast
  qed
  from r2 clean[of fs] clean[of fs1]
  show "(\<exists>fs2. organize_folder lc base fs1 = Inr (fs2, [])) \<and>
       (\<forall>fs2 m2. organize_folder lc base fs1 = Inr (fs2, m2) \<longrightarrow>
          (\<forall>(s, t)\<in>set m2. s \<notin> snd ` set m1)) \<and>
       (\<forall>s t pre. Move s t pre \<in> set (performed fs (organize_folder lc base fs)) \<longrightarrow> pre = None) \<and>
       (\<forall>s t pre. Move s t pre \<in> set (performed fs1 (organize_folder lc base fs1)) \<longrightarrow> pre = None)"
    by auto
qed

theorem second_run_moves_nothing_witness:
  "organize_folder ascii_lower [] plain_fs = Inr (plain_done, plain_moves) \<and>
   organize_folder ascii_lower [] plain_done = Inr (plain_done, [])"
proof -
  have a: "organize_folder ascii_lower [] plain_fs = Inr (plain_done, plain_moves)" by code_simp
  from second_run_moves_nothing[of ascii_lower "[]" plain_fs] a
  obtain fs2 where b: "organize_folder ascii_lower [] plain_done = Inr (fs2, [])" by blast
  have "organize_folder ascii_lower [] plain_done = Inr (plain_done, [])" by code_simp
  with a b show ?thesis by simp
qed

section \<open>No file is lost\<close>

lemma sum_update:
  fixes f :: "node \<Rightarrow> string multiset"
  shows "(\<Sum>e\<leftarrow>AList.update x n es. f (snd e)) + (case map_of es x of None \<Rightarrow> {#} | Some m \<Rightarrow> f m)
     = (\<Sum>e\<leftarrow>es. f (snd e)) + f n"
  by (induction es) (auto simp: ac_simps)

lemma sum_delete:
  fixes f :: "node \<Rightarrow> string multiset"
  shows "distinct (map fst es) \<Longrightarrow>
     (\<Sum>e\<leftarrow>AList.delete x es. f (snd e)) + (case map_of es x of None \<Rightarrow> {#} | Some m \<Rightarrow> f m)
     = (\<Sum>e\<leftarrow>es. f (snd e))"
proof (induction es)
  case Nil
  then show ?case by simp
next
  case (Cons a es)
  show ?case
  proof (cases "fst a = x")
    case True
    with Cons.prems have "x \<notin> fst ` set es" by auto
    then have "AList.delete x es = es" by (simp add: delete_id)
    with True show ?thesis by (cases a) (simp add: ac_simps)
  next
    case False
    with Cons show ?thesis by (cases a) (auto simp: ac_simps)
  qed
qed

lemma wf_update: "distinct (map fst es) \<Longrightarrow> distinct (map fst (AList.update x n es))"
  by (rule distinct_update)

lemma set_update_subset: "set (AList.update x n es) \<subseteq> insert (x, n) (set es)"
  by (induction es) auto

lemma set_delete_subset: "set (AList.delete x es) \<subseteq> set es"
  by (induction es) auto

lemma wf_set_entry:
  "set_entry t p v = Some t' \<Longrightarrow> wf_node t \<Longrightarrow> (\<forall>n. v = Some n \<longrightarrow> wf_node n) \<Longrightarrow> wf_node t'"
proof (induction t p v arbitrary: t' rule: set_entry.induct)
  case (3 es x v)
  show ?case
  proof (cases v)
    case None
    with 3 show ?thesis using set_delete_subset[of x es] by (fastforce simp: distinct_delete)
  next
    case (Some n)
    with 3 show ?thesis using set_update_subset[of x n es] by (fastforce simp: distinct_update)
  qed
next
  case (4 es x y p v)
  from 4(2) obtain c c' where c: "map_of es x = Some c" "set_entry c (y # p) v = Some c'"
    "t' = Dir (AList.update x c' es)" by (auto split: option.splits)
  from c(1) have "(x, c) \<in> set es" by (rule map_of_SomeD)
  with 4(3) have "wf_node c" by auto
  from 4(1)[OF c(1,2) this 4(4)] have "wf_node c'" .
  with 4(3) c(3) set_update_subset[of x c' es] show ?case by (fastforce simp: distinct_update)
qed simp_all

lemma files_set_entry:
  "set_entry t p v = Some t' \<Longrightarrow> wf_node t \<Longrightarrow>
   files t' + files_at t p = files t + (case v of None \<Rightarrow> {#} | Some n \<Rightarrow> files n)"
proof (induction t p v arbitrary: t' rule: set_entry.induct)
  case (3 es x v)
  have fa: "files_at (Dir es) [x] = (case map_of es x of None \<Rightarrow> {#} | Some m \<Rightarrow> files m)"
    by (simp add: files_at_def split: option.splits)
  show ?case
  proof (cases v)
    case None
    with 3 sum_delete[where f=files and es=es and x=x] fa show ?thesis by auto
  next
    case (Some n)
    with 3 sum_update[where f=files and es=es and x=x and n=n] fa show ?thesis by auto
  qed
next
  case (4 es x y p v)
  from 4(2) obtain c c' where c: "map_of es x = Some c" "set_entry c (y # p) v = Some c'"
    "t' = Dir (AList.update x c' es)" by (auto split: option.splits)
  from c(1) have "(x, c) \<in> set es" by (rule map_of_SomeD)
  with 4(3) have "wf_node c" by auto
  from 4(1)[OF c(1,2) this]
  have ih: "files c' + files_at c (y # p) = files c + (case v of None \<Rightarrow> {#} | Some n \<Rightarrow> files n)" .
  have fa: "files_at (Dir es) (x # y # p) = files_at c (y # p)"
    using c(1) by (simp add: files_at_def)
  from sum_update[where f=files and es=es and x=x and n=c'] c(1)
  have "files t' + files c = files (Dir es) + files c'" using c(3) by simp
  then have "files t' + files c + files_at c (y # p) = files (Dir es) + (files c' + files_at c (y # p))"
    by (simp add: ac_simps)
  with ih have "files t' + files c + files_at c (y # p)
      = files (Dir es) + files c + (case v of None \<Rightarrow> {#} | Some n \<Rightarrow> files n)"
    by (simp add: ac_simps)
  then have "files t' + files_at c (y # p) + files c
      = files (Dir es) + (case v of None \<Rightarrow> {#} | Some n \<Rightarrow> files n) + files c"
    by (simp add: ac_simps)
  then show ?case unfolding fa by simp
qed simp_all

lemma files_at_absent: "kind_of (resolve t p) = Absent \<Longrightarrow> files_at t p = {#}"
  by (auto simp: files_at_def kind_of_def split: sum.splits node.splits)

lemma keeps_refl: "keeps fs fs"
  by (simp add: keeps_def)

lemma keeps_trans: "keeps a b \<Longrightarrow> keeps b c \<Longrightarrow> keeps a c"
  by (auto simp: keeps_def)

lemma os_mkdir_keeps: "os_mkdir fs p = Inr fs' \<Longrightarrow> keeps fs fs'"
proof -
  assume a: "os_mkdir fs p = Inr fs'"
  from os_mkdir_Inr[OF a] obtain t where t: "set_entry (tree fs) p (Some (Dir [])) = Some t"
    and fs': "tree fs' = t" and ab: "kind_at fs p = Absent" by auto
  show ?thesis unfolding keeps_def
  proof
    assume wf: "wf_node (tree fs)"
    from wf_set_entry[OF t wf] have "wf_node t" by simp
    moreover from files_set_entry[OF t wf] files_at_absent[of "tree fs" p] ab
    have "files t = files (tree fs)" by (simp add: kind_at_def)
    ultimately show "wf_node (tree fs') \<and> files (tree fs') = files (tree fs)" using fs' by simp
  qed
qed

lemma mkdir_exist_ok_keeps: "mkdir_exist_ok fs p = Inr fs' \<Longrightarrow> keeps fs fs'"
  using os_mkdir_keeps[of fs p] keeps_refl
  by (auto simp: mkdir_exist_ok_def split: sum.splits if_splits)

lemma mkdir_parents_keeps: "mkdir_parents fs p = Inr fs' \<Longrightarrow> keeps fs fs'"
proof (induction fs p arbitrary: fs' rule: mkdir_parents.induct)
  case (1 fs p)
  show ?case
  proof (cases "os_mkdir fs p")
    case (Inr fs1)
    with 1(2) have "fs' = fs1" by (subst (asm) mkdir_parents.simps) simp
    with os_mkdir_keeps[OF Inr] show ?thesis by simp
  next
    case (Inl e)
    show ?thesis
    proof (cases "e = ENOENT")
      case True
      with Inl 1(2) have pne: "p \<noteq> []" by (subst (asm) mkdir_parents.simps) (auto split: if_splits)
      with Inl True 1(2) obtain fs1 where m1: "mkdir_parents fs (butlast p) = Inr fs1"
        and m2: "mkdir_exist_ok fs1 p = Inr fs'"
        by (subst (asm) mkdir_parents.simps) (auto split: sum.splits)
      from keeps_trans[OF 1(1)[OF Inl True pne m1] mkdir_exist_ok_keeps[OF m2]] show ?thesis .
    next
      case False
      with Inl 1(2) have "fs' = fs" by (subst (asm) mkdir_parents.simps) (auto split: if_splits)
      then show ?thesis by (simp add: keeps_refl)
    qed
  qed
qed

lemma move_fresh_keeps:
  assumes "move fs src dst = Inr fs'" "\<not> path_exists fs dst"
  shows "keeps fs fs'"
proof -
  from move_fresh_Inr[OF assms] obtain n t1 t2 where
    n: "resolve (tree fs) src = Inr n" and t1: "set_entry (tree fs) src None = Some t1"
    and t2: "set_entry t1 dst (Some n) = Some t2" and fs': "tree fs' = t2"
    and np: "\<not> prefix src dst" by auto
  show ?thesis unfolding keeps_def
  proof
    assume wf: "wf_node (tree fs)"
    from wf_set_entry[OF t1 wf] have wf1: "wf_node t1" by simp
    from wf_resolve[OF wf n] have wfn: "wf_node n" .
    from wf_set_entry[OF t2 wf1] wfn have wf2: "wf_node t2" by simp
    from files_set_entry[OF t1 wf] n have f1: "files t1 + files n = files (tree fs)"
      by (simp add: files_at_def)
    have "kind_of (resolve t1 dst) = Absent"
      using kind_of_set_entry[OF t1, of dst] np assms(2) by (simp add: path_exists_kind kind_at_def)
    from files_set_entry[OF t2 wf1] files_at_absent[OF this]
    have "files t2 = files t1 + files n" by simp
    with f1 wf2 fs' show "wf_node (tree fs') \<and> files (tree fs') = files (tree fs)" by simp
  qed
qed

lemma rmdir_keeps: "rmdir fs p = Inr fs' \<Longrightarrow> keeps fs fs'"
proof -
  assume a: "rmdir fs p = Inr fs'"
  from rmdir_Inr[OF a] obtain t where e: "resolve (tree fs) p = Inr (Dir [])"
    and t: "set_entry (tree fs) p None = Some t" and fs': "tree fs' = t" by auto
  show ?thesis unfolding keeps_def
  proof
    assume wf: "wf_node (tree fs)"
    from wf_set_entry[OF t wf] have "wf_node t" by simp
    moreover from files_set_entry[OF t wf] e have "files t = files (tree fs)"
      by (simp add: files_at_def)
    ultimately show "wf_node (tree fs') \<and> files (tree fs') = files (tree fs)" using fs' by simp
  qed
qed

lemma rmdir_try_keeps: "keeps fs (case rmdir fs p of Inl e \<Rightarrow> fs | Inr x \<Rightarrow> x)"
  using rmdir_keeps[of fs p] keeps_refl by (auto split: sum.splits)

lemma organize_entries_keeps: "keeps fs (final_fs (organize_entries lc b es fs ms))"
proof (induction es arbitrary: fs ms)
  case Nil
  show ?case by (simp add: final_fs_def keeps_refl)
next
  case (Cons entry rest)
  show ?case
  proof (cases "is_dir fs entry")
    case True
    with Cons[of fs ms] show ?thesis by simp
  next
    case nd: False
    show ?thesis
    proof (cases "mkdir_parents fs (dest_of lc b entry)")
      case (Inl e)
      with nd show ?thesis by (simp add: final_fs_def keeps_refl Let_def dest_of_def)
    next
      case (Inr fs1)
      note k1 = mkdir_parents_keeps[OF Inr]
      define target where "target = ensure_unique_path fs1 (dest_of lc b entry @ [path_name entry])"
      have fr: "\<not> path_exists fs1 target" unfolding target_def by (rule ensure_unique_path_fresh)
      show ?thesis
      proof (cases "move fs1 entry target")
        case (Inl e)
        with nd Inr have "organize_entries lc b (entry # rest) fs ms = Inl (e, fs1)"
          by (simp add: Let_def dest_of_def target_def)
        with k1 show ?thesis by (simp add: final_fs_def)
      next
        case mv: (Inr fs2)
        from nd Inr mv have "organize_entries lc b (entry # rest) fs ms =
             organize_entries lc b rest fs2 (ms @ [(entry, target)])"
          by (simp add: Let_def dest_of_def target_def)
        with keeps_trans[OF k1 keeps_trans[OF move_fresh_keeps[OF mv fr] Cons]]
        show ?thesis by simp
      qed
    qed
  qed
qed

lemma relocate_items_keeps: "keeps fs (final_fs (relocate_items d items fs ms))"
proof (induction items arbitrary: fs ms)
  case Nil
  show ?case by (simp add: final_fs_def keeps_refl)
next
  case (Cons item rest)
  define target where "target =
    (if is_dir fs item then ensure_unique_dir fs (d @ [path_name item])
     else ensure_unique_path fs (d @ [path_name item]))"
  have fr: "\<not> path_exists fs target"
    unfolding target_def by (simp add: ensure_unique_path_fresh ensure_unique_dir_fresh)
  show ?case
  proof (cases "move fs item target")
    case (Inl e)
    then have "relocate_items d (item # rest) fs ms = Inl (e, fs)"
      by (simp add: Let_def target_def split: if_splits)
    then show ?thesis by (simp add: final_fs_def keeps_refl)
  next
    case (Inr fs2)
    then have "relocate_items d (item # rest) fs ms =
         relocate_items d rest fs2 (ms @ [(item, target)])"
      by (simp add: Let_def target_def split: if_splits)
    with keeps_trans[OF move_fresh_keeps[OF Inr fr] Cons] show ?thesis by simp
  qed
qed

lemma relocate_each_keeps: "keeps fs (final_fs (relocate_each b lm fs ms))"
proof (induction lm arbitrary: fs ms)
  case Nil
  show ?case by (simp add: final_fs_def keeps_refl)
next
  case (Cons a rest)
  obtain legacy_name dest_rel where a: "a = (legacy_name, dest_rel)" by (cases a)
  define src_dir where "src_dir = b @ Path legacy_name"
  define dest_dir where "dest_dir = b @ Path dest_rel"
  show ?case
  proof (cases "\<not> path_exists fs src_dir \<or> \<not> is_dir fs src_dir")
    case True
    then have "relocate_each b (a # rest) fs ms = relocate_each b rest fs ms"
      by (auto simp: a src_dir_def Let_def)
    with Cons[of fs ms] show ?thesis by simp
  next
    case False
    show ?thesis
    proof (cases "mkdir_parents fs dest_dir")
      case (Inl e)
      with False have "relocate_each b (a # rest) fs ms = Inl (e, fs)"
        by (auto simp: a src_dir_def dest_dir_def Let_def)
      then show ?thesis by (simp add: final_fs_def keeps_refl)
    next
      case (Inr fs1)
      note k1 = mkdir_parents_keeps[OF Inr]
      show ?thesis
      proof (cases "iterdir fs1 src_dir")
        case (Inl e)
        with False Inr have "relocate_each b (a # rest) fs ms = Inl (e, fs1)"
          by (auto simp: a src_dir_def dest_dir_def Let_def)
        with k1 show ?thesis by (simp add: final_fs_def)
      next
        case items: (Inr items)
        note k2 = relocate_items_keeps[of fs1 dest_dir items ms]
        show ?thesis
        proof (cases "relocate_items dest_dir items fs1 ms")
          case (Inl x)
          with False Inr items have "relocate_each b (a # rest) fs ms = Inl x"
            by (auto simp: a src_dir_def dest_dir_def Let_def)
          with keeps_trans[OF k1 k2] Inl show ?thesis by simp
        next
          case ok: (Inr res)
          obtain fs2 ms2 where res: "res = (fs2, ms2)" by (cases res)
          define fs3 where "fs3 = (case rmdir fs2 src_dir of Inl e \<Rightarrow> fs2 | Inr fs' \<Rightarrow> fs')"
          from False Inr items ok res have step:
            "relocate_each b (a # rest) fs ms = relocate_each b rest fs3 ms2"
            by (auto simp: a src_dir_def dest_dir_def Let_def fs3_def)
          from k2 ok res have k2': "keeps fs1 fs2" by (simp add: final_fs_def)
          have k3: "keeps fs2 fs3" unfolding fs3_def by (rule rmdir_try_keeps)
          from keeps_trans[OF k1 keeps_trans[OF k2' keeps_trans[OF k3 Cons]]] step
          show ?thesis by simp
        qed
      qed
    qed
  qed
qed

lemma organize_folder_keeps: "keeps fs (final_fs (organize_folder lc b fs))"
proof (cases "iterdir fs b")
  case (Inl e)
  then show ?thesis by (simp add: organize_folder_def final_fs_def keeps_refl)
next
  case (Inr entries)
  note k1 = organize_entries_keeps[of fs lc b entries "[]"]
  show ?thesis
  proof (cases "organize_entries lc b entries fs []")
    case (Inl x)
    with Inr have "organize_folder lc b fs = Inl x" by (simp add: organize_folder_def)
    with k1 Inl show ?thesis by simp
  next
    case ok: (Inr res)
    obtain fs1 ms1 where res: "res = (fs1, ms1)" by (cases res)
    from Inr ok res have "organize_folder lc b fs = relocate_each b LEGACY_FOLDER_REMAP fs1 ms1"
      by (simp add: organize_folder_def relocate_legacy_folders_def)
    moreover from k1 ok res have "keeps fs fs1" by (simp add: final_fs_def)
    ultimately show ?thesis using keeps_trans[OF _ relocate_each_keeps] by simp
  qed
qed

section \<open>Errors of the cleanup are passed over\<close>

lemma os_mkdir_error: "os_mkdir fs p = Inl e \<Longrightarrow> e = ENOENT \<or> e = ENOTDIR \<or> e = EEXIST"
  using resolve_error[of "tree fs" "butlast p"]
  by (auto simp: os_mkdir_def split: sum.splits node.splits option.splits)

lemma mkdir_exist_ok_error:
  "mkdir_exist_ok fs p = Inl e \<Longrightarrow> e = ENOENT \<or> e = ENOTDIR \<or> e = EEXIST"
  using os_mkdir_error[of fs p] by (auto simp: mkdir_exist_ok_def split: sum.splits if_splits)

lemma mkdir_parents_error:
  "mkdir_parents fs p = Inl e \<Longrightarrow> e = ENOENT \<or> e = ENOTDIR \<or> e = EEXIST"
proof (induction fs p arbitrary: e rule: mkdir_parents.induct)
  case (1 fs p)
  show ?case
  proof (cases "os_mkdir fs p")
    case (Inr fs1)
    with 1(2) show ?thesis by (subst (asm) mkdir_parents.simps) simp
  next
    case (Inl e0)
    note oe = os_mkdir_error[OF Inl]
    show ?thesis
    proof (cases "e0 = ENOENT")
      case True
      show ?thesis
      proof (cases "p = []")
        case pe: True
        with Inl True 1(2) show ?thesis by (subst (asm) mkdir_parents.simps) simp
      next
        case pne: False
        show ?thesis
        proof (cases "mkdir_parents fs (butlast p)")
          case e1: (Inl e1)
          with Inl True pne 1(2) have "e = e1" by (subst (asm) mkdir_parents.simps) simp
          with 1(1)[OF Inl True pne e1] show ?thesis by simp
        next
          case (Inr fs1)
          with Inl True pne 1(2) have "mkdir_exist_ok fs1 p = Inl e"
            by (subst (asm) mkdir_parents.simps) simp
          from mkdir_exist_ok_error[OF this] show ?thesis .
        qed
      qed
    next
      case False
      with Inl 1(2) have "e = e0" by (subst (asm) mkdir_parents.simps) (auto split: if_splits)
      with oe show ?thesis by simp
    qed
  qed
qed

lemma move_error:
  "move fs src dst = Inl e \<Longrightarrow> e = ENOENT \<or> e = ENOTDIR \<or> e = EEXIST \<or> e = EINVAL"
  using resolve_error[of "tree fs" src]
  by (auto simp: move_def Let_def split: sum.splits if_splits option.splits)

lemma iterdir_error: "iterdir fs p = Inl e \<Longrightarrow> e = ENOENT \<or> e = ENOTDIR"
  using resolve_error[of "tree fs" p]
  by (auto simp: iterdir_def split: sum.splits node.splits)

lemma organize_entries_error:
  "organize_entries lc b es fs ms = Inl (e, fs') \<Longrightarrow> e \<noteq> EACCES \<and> e \<noteq> ENOTEMPTY"
proof (induction es arbitrary: fs ms)
  case Nil
  then show ?case by simp
next
  case (Cons entry rest)
  show ?case
  proof (cases "is_dir fs entry")
    case True
    with Cons show ?thesis by simp
  next
    case nd: False
    show ?thesis
    proof (cases "mkdir_parents fs (dest_of lc b entry)")
      case (Inl e0)
      with nd Cons.prems have "e = e0" by (simp add: Let_def dest_of_def)
      with mkdir_parents_error[OF Inl] show ?thesis by auto
    next
      case (Inr fs1)
      define target where "target = ensure_unique_path fs1 (dest_of lc b entry @ [path_name entry])"
      show ?thesis
      proof (cases "move fs1 entry target")
        case (Inl e0)
        with nd Inr Cons.prems have "e = e0" by (simp add: Let_def dest_of_def target_def)
        with move_error[OF Inl] show ?thesis by auto
      next
        case mv: (Inr fs2)
        with nd Inr Cons.prems have
          "organize_entries lc b rest fs2 (ms @ [(entry, target)]) = Inl (e, fs')"
          by (simp add: Let_def dest_of_def target_def)
        from Cons.IH[OF this] show ?thesis .
      qed
    qed
  qed
qed

lemma relocate_items_error:
  "relocate_items d items fs ms = Inl (e, fs') \<Longrightarrow> e \<noteq> EACCES \<and> e \<noteq> ENOTEMPTY"
proof (induction items arbitrary: fs ms)
  case Nil
  then show ?case by simp
next
  case (Cons item rest)
  define target where "target =
    (if is_dir fs item then ensure_unique_dir fs (d @ [path_name item])
     else ensure_unique_path fs (d @ [path_name item]))"
  show ?case
  proof (cases "move fs item target")
    case (Inl e0)
    with Cons.prems have "e = e0" by (simp add: Let_def target_def split: if_splits)
    with move_error[OF Inl] show ?thesis by auto
  next
    case (Inr fs2)
    with Cons.prems have "relocate_items d rest fs2 (ms @ [(item, target)]) = Inl (e, fs')"
      by (simp add: Let_def target_def split: if_splits)
    from Cons.IH[OF this] show ?thesis .
  qed
qed

lemma relocate_each_error:
  "relocate_each b lm fs ms = Inl (e, fs') \<Longrightarrow> e \<noteq> EACCES \<and> e \<noteq> ENOTEMPTY"
proof (induction lm arbitrary: fs ms)
  case Nil
  then show ?case by simp
next
  case (Cons a rest)
  obtain legacy_name dest_rel where a: "a = (legacy_name, dest_rel)" by (cases a)
  define src_dir where "src_dir = b @ Path legacy_name"
  define dest_dir where "dest_dir = b @ Path dest_rel"
  show ?case
  proof (cases "\<not> path_exists fs src_dir \<or> \<not> is_dir fs src_dir")
    case True
    with Cons.prems have "relocate_each b rest fs ms = Inl (e, fs')"
      by (auto simp: a src_dir_def Let_def)
    from Cons.IH[OF this] show ?thesis .
  next
    case False
    show ?thesis
    proof (cases "mkdir_parents fs dest_dir")
      case (Inl e0)
      with False Cons.prems have "e = e0" by (auto simp: a src_dir_def dest_dir_def Let_def)
      with mkdir_parents_error[OF Inl] show ?thesis by auto
    next
      case (Inr fs1)
      show ?thesis
      proof (cases "iterdir fs1 src_dir")
        case (Inl e0)
        with False Inr Cons.prems have "e = e0" by (auto simp: a src_dir_def dest_dir_def Let_def)
        with iterdir_error[OF Inl] show ?thesis by auto
      next
        case items: (Inr items)
        show ?thesis
        proof (cases "relocate_items dest_dir items fs1 ms")
          case (Inl x)
          with False Inr items Cons.prems have "x = (e, fs')"
            by (auto simp: a src_dir_def dest_dir_def Let_def)
          with Inl relocate_items_error[of dest_dir items fs1 ms e fs'] show ?thesis by simp
        next
          case ok: (Inr res)
          obtain fs2 ms2 where res: "res = (fs2, ms2)" by (cases res)
          define fs3 where "fs3 = (case rmdir fs2 src_dir of Inl e \<Rightarrow> fs2 | Inr fs' \<Rightarrow> fs')"
          from False Inr items ok res Cons.prems have
            "relocate_each b rest fs3 ms2 = Inl (e, fs')"
            by (auto simp: a src_dir_def dest_dir_def Let_def fs3_def)
          from Cons.IH[OF this] show ?thesis .
        qed
      qed
    qed
  qed
qed

lemma organize_folder_error:
  "organize_folder lc b fs = Inl (e, fs') \<Longrightarrow> e \<noteq> EACCES \<and> e \<noteq> ENOTEMPTY"
proof (cases "iterdir fs b")
  case (Inl e0)
  assume "organize_folder lc b fs = Inl (e, fs')"
  with Inl have "e = e0" by (simp add: organize_folder_def)
  with iterdir_error[OF Inl] show ?thesis by auto
next
  case (Inr entries)
  assume r: "organize_folder lc b fs = Inl (e, fs')"
  show ?thesis
  proof (cases "organize_entries lc b entries fs []")
    case (Inl x)
    with Inr r have "x = (e, fs')" by (simp add: organize_folder_def)
    with Inl organize_entries_error[of lc b entries fs "[]" e fs'] show ?thesis by simp
  next
    case ok: (Inr res)
    obtain fs1 ms1 where res: "res = (fs1, ms1)" by (cases res)
    from Inr ok res r have "relocate_each b LEGACY_FOLDER_REMAP fs1 ms1 = Inl (e, fs')"
      by (simp add: organize_folder_def relocate_legacy_folders_def)
    from relocate_each_error[OF this] show ?thesis .
  qed
qed

lemma rmdir_denied_fails: "p \<in> set (rmdir_denied fs) \<Longrightarrow> \<exists>e. rmdir fs p = Inl e"
  by (auto simp: rmdir_def split: sum.splits node.splits option.splits)

lemma legacy_dir_stays:
  "relocate_each b lm fs ms = Inr (fs', ms') \<Longrightarrow> set lm \<subseteq> set LEGACY_FOLDER_REMAP \<Longrightarrow>
   distinct (map fst lm) \<Longrightarrow> (l, d) \<in> set lm \<Longrightarrow> is_dir fs (b @ [l]) \<Longrightarrow>
   b @ [l] \<in> set (rmdir_denied fs) \<Longrightarrow> resolve (tree fs') (b @ [l]) = Inr (Dir [])"
proof (induction lm arbitrary: fs ms)
  case Nil
  then show ?case by simp
next
  case (Cons a rest)
  from relocate_each_Cons_split[OF Cons.prems(1)] obtain f1 m1 where
    one: "relocate_each b [a] fs ms = Inr (f1, m1)"
    and more: "relocate_each b rest f1 m1 = Inr (fs', ms')" by blast
  obtain l0 d0 where a: "a = (l0, d0)" by (cases a)
  from Cons.prems(2) a have a_in: "(l0, d0) \<in> set LEGACY_FOLDER_REMAP" by simp
  note pa = legacy_entry[OF a_in]
  from Cons.prems(2,4) have l_in: "(l, d) \<in> set LEGACY_FOLDER_REMAP" by auto
  note pl = legacy_entry[OF l_in]
  show ?case
  proof (cases "l0 = l")
    case True
    let ?sd = "b @ Path l0" and ?dd = "b @ Path d0"
    have sd: "?sd = b @ [l]" using pa True by simp
    have ap: "\<not> prefix ?sd ?dd" "\<not> prefix ?dd ?sd" using pa by auto
    have rest_frame: "\<forall>(l', d')\<in>set rest.
        \<not> prefix (b @ Path l') (b @ [l]) \<and> \<not> prefix (b @ [l]) (b @ Path l') \<and>
        \<not> prefix (b @ [l]) (b @ Path d')"
    proof (clarify)
      fix l' d' assume ld: "(l', d') \<in> set rest"
      with Cons.prems(2) have "(l', d') \<in> set LEGACY_FOLDER_REMAP" by auto
      note p' = legacy_entry[OF this]
      from ld Cons.prems(3) a True have "l' \<noteq> l" by force
      with p' pl show "\<not> prefix (b @ Path l') (b @ [l]) \<and> \<not> prefix (b @ [l]) (b @ Path l') \<and>
        \<not> prefix (b @ [l]) (b @ Path d')" by auto
    qed
    from one[unfolded a] show ?thesis
    proof (cases rule: relocate_each_Cons_Inr)
      case skip
      with Cons.prems(5) sd show ?thesis by simp
    next
      case (fold fs1 items fs2 ms2 fs3)
      from fold(6) have f1: "f1 = fs3" by simp
      from relocate_items_drains[OF fold(4,3) ap] have e: "resolve (tree fs2) ?sd = Inr (Dir [])" .
      have "rmdir_denied fs2 = rmdir_denied fs"
        using relocate_items_denied[OF fold(4)] mkdir_parents_denied[OF fold(2)] by simp
      with Cons.prems(6) sd rmdir_denied_fails[of ?sd fs2] obtain e0 where
        "rmdir fs2 ?sd = Inl e0" by auto
      with fold(5) have "fs3 = fs2" by simp
      with e f1 sd have r1: "resolve (tree f1) (b @ [l]) = Inr (Dir [])" by simp
      then have pe: "path_exists f1 (b @ [l])" by (simp add: path_exists_def)
      from relocate_each_frame[OF more pe rest_frame] r1 show ?thesis by simp
    qed
  next
    case False
    with Cons.prems(4) a have in_rest: "(l, d) \<in> set rest" by auto
    have pe: "path_exists fs (b @ [l])" using Cons.prems(5) by (rule is_dir_exists)
    have "\<forall>(l', d')\<in>set [a].
        \<not> prefix (b @ Path l') (b @ [l]) \<and> \<not> prefix (b @ [l]) (b @ Path l') \<and>
        \<not> prefix (b @ [l]) (b @ Path d')"
      using pa pl False by (auto simp: a)
    from relocate_each_frame[OF one pe this] Cons.prems(5)
    have d1: "is_dir f1 (b @ [l])" by (simp add: is_dir_def)
    have "b @ [l] \<in> set (rmdir_denied f1)"
      using relocate_each_denied[OF one] Cons.prems(6) by simp
    from Cons.IH[OF more _ _ in_rest d1 this] Cons.prems(2,3) show ?thesis by auto
  qed
qed

lemma denied_folder_left:
  assumes run: "organize_folder lc b fs = Inr (fs', moves)"
    and leg: "(l, d) \<in> set LEGACY_FOLDER_REMAP" and dir: "is_dir fs (b @ [l])"
    and den: "b @ [l] \<in> set (rmdir_denied fs)"
  shows "resolve (tree fs') (b @ [l]) = Inr (Dir [])"
proof -
  from run obtain entries fs1 ms1 where it: "iterdir fs b = Inr entries"
    and p1: "organize_entries lc b entries fs [] = Inr (fs1, ms1)"
    and p2: "relocate_each b LEGACY_FOLDER_REMAP fs1 ms1 = Inr (fs', moves)"
    by (rule organize_folder_Inr)
  from first_pass_skips(1)[OF it p1 dir] have d1: "is_dir fs1 (b @ [l])" .
  from organize_entries_denied[OF p1] den have "b @ [l] \<in> set (rmdir_denied fs1)" by simp
  from legacy_dir_stays[OF p2 subset_refl legacy_distinct leg d1 this] show ?thesis .
qed

lemma denied_irrelevant:
  "wf_node (tree (fs\<lparr>rmdir_denied := D\<rparr>)) = wf_node (tree fs)"
  "dests_free (fs\<lparr>rmdir_denied := D\<rparr>) b = dests_free fs b"
  by (simp_all add: dests_free_def is_dir_def is_file_def)

text \<open>
  Claim C6. Whether a run returns or raises, the files of a well-formed tree are the same
  afterwards, with multiplicity: none is deleted. In a run that returns, every child of a
  legacy folder is at its target and in the move list, whether or not the folder was
  removed; a legacy folder whose removal the system refuses is left in place, empty. An
  error of the removal never surfaces: no run raises the errors that only \<open>rmdir\<close> raises,
  and under the conditions in which nothing else can fail the run returns its move list
  whatever removals are refused.
\<close>

theorem cleanup_is_best_effort:
  "(wf_node (tree fs) \<longrightarrow> files (tree (final_fs (organize_folder lc base fs))) = files (tree fs)) \<and>
   (\<forall>e fs'. organize_folder lc base fs = Inl (e, fs') \<longrightarrow> e \<noteq> EACCES \<and> e \<noteq> ENOTEMPTY) \<and>
   (\<forall>fs' moves l d.
      organize_folder lc base fs = Inr (fs', moves) \<longrightarrow>
      (l, d) \<in> set LEGACY_FOLDER_REMAP \<longrightarrow>
      is_dir fs (base @ [l]) \<longrightarrow>
        (\<forall>x n. resolve (tree fs) (base @ [l, x]) = Inr n \<longrightarrow>
           (\<exists>z. (base @ [l, x], base @ Path d @ [z]) \<in> set moves \<and>
                resolve (tree fs') (base @ Path d @ [z]) = Inr n)) \<and>
        (base @ [l] \<in> set (rmdir_denied fs) \<longrightarrow>
           resolve (tree fs') (base @ [l]) = Inr (Dir []))) \<and>
   (\<forall>D. wf_node (tree fs) \<longrightarrow> dests_free fs base \<longrightarrow>
      (\<exists>fs' moves. organize_folder lc base (fs\<lparr>rmdir_denied := D\<rparr>) = Inr (fs', moves)))"
proof (intro conjI allI impI)
  assume "wf_node (tree fs)"
  with organize_folder_keeps[of fs lc base]
  show "files (tree (final_fs (organize_folder lc base fs))) = files (tree fs)"
    by (simp add: keeps_def)
next
  fix e fs' assume "organize_folder lc base fs = Inl (e, fs')"
  from organize_folder_error[OF this] show "e \<noteq> EACCES" "e \<noteq> ENOTEMPTY" by simp_all
next
  fix fs' moves l d x n
  assume "organize_folder lc base fs = Inr (fs', moves)" "(l, d) \<in> set LEGACY_FOLDER_REMAP"
    "is_dir fs (base @ [l])" "resolve (tree fs) (base @ [l, x]) = Inr n"
  from legacy_folded(1)[OF this]
  show "\<exists>z. (base @ [l, x], base @ Path d @ [z]) \<in> set moves \<and>
                resolve (tree fs') (base @ Path d @ [z]) = Inr n" by blast
next
  fix fs' moves l d
  assume "organize_folder lc base fs = Inr (fs', moves)" "(l, d) \<in> set LEGACY_FOLDER_REMAP"
    "is_dir fs (base @ [l])" "base @ [l] \<in> set (rmdir_denied fs)"
  from denied_folder_left[OF this] show "resolve (tree fs') (base @ [l]) = Inr (Dir [])" .
next
  fix D assume "wf_node (tree fs)" "dests_free fs base"
  then have "wf_node (tree (fs\<lparr>rmdir_denied := D\<rparr>))" "dests_free (fs\<lparr>rmdir_denied := D\<rparr>) base"
    by (simp_all add: denied_irrelevant)
  from organize_folder_total[OF this]
  show "\<exists>fs' moves. organize_folder lc base (fs\<lparr>rmdir_denied := D\<rparr>) = Inr (fs', moves)" .
qed

theorem cleanup_is_best_effort_witness:
  "wf_node (tree locked_fs) \<and> dests_free locked_fs [] \<and>
   organize_folder ascii_lower [] locked_fs = Inr (locked_done, excel_moves) \<and>
   (''Excel'', ''Documents/Excel'') \<in> set LEGACY_FOLDER_REMAP \<and>
   is_dir locked_fs [''Excel''] \<and>
   [''Excel''] \<in> set (rmdir_denied locked_fs) \<and>
   resolve (tree locked_done) [''Excel''] = Inr (Dir []) \<and>
   files (tree locked_done) = files (tree locked_fs) \<and>
   files (tree locked_fs) = {#''a'', ''b''#}"
proof -
  have a: "wf_node (tree locked_fs)" by (simp add: locked_fs_def)
  have b: "dests_free locked_fs []" by code_simp
  have c: "organize_folder ascii_lower [] locked_fs = Inr (locked_done, excel_moves)" by code_simp
  have d: "(''Excel'', ''Documents/Excel'') \<in> set LEGACY_FOLDER_REMAP"
    by (simp add: LEGACY_FOLDER_REMAP_def)
  have e: "is_dir locked_fs ([] @ [''Excel''])" by code_simp
  have f: "[] @ [''Excel''] \<in> set (rmdir_denied locked_fs)" by (simp add: locked_fs_def)
  from cleanup_is_best_effort[of locked_fs ascii_lower "[]"] c d e f
  have g: "resolve (tree locked_done) ([] @ [''Excel'']) = Inr (Dir [])" by blast
  from cleanup_is_best_effort[of locked_fs ascii_lower "[]"] a c
  have h: "files (tree locked_done) = files (tree locked_fs)" by (simp add: final_fs_def)
  have i: "files (tree locked_fs) = {#''a'', ''b''#}" by (simp add: locked_fs_def)
  from a b c d e f g h i show ?thesis by simp
qed

end
